theory Spec2Isabelle
  imports Main "HOL-Library.Word" "HOL-Library.AList"
begin

section \<open>The OSM object model used by the XML input format\<close>

text \<open>
  The embedding follows \<^verbatim>\<open>include/osmium/osm/node_ref.hpp\<close> and
  \<^verbatim>\<open>include/osmium/io/detail/xml_input_format.hpp\<close>. Identifiers are
  64-bit signed integers (\<^verbatim>\<open>object_id_type\<close>), read with \<open>sint\<close>.
\<close>

type_synonym object_id_type = "64 word"
type_synonym user_id_type = "32 word"
type_synonym attrs = "(string \<times> string) list"

text \<open>
  Modelled from the spec: \<^verbatim>\<open>osmium::Location\<close> (osmium/osm/location.hpp is not
  part of the sources at hand) is a pair of fixed-point integer coordinates with a
  sentinel "undefined" value; a location is defined iff both coordinates are.
\<close>

record Location =
  m_x :: "32 word"
  m_y :: "32 word"

definition undefined_coordinate :: "32 word" where
  "undefined_coordinate = 2147483647"

definition Location_default :: Location where
  "Location_default = \<lparr>m_x = undefined_coordinate, m_y = undefined_coordinate\<rparr>"

definition Location_valid :: "Location \<Rightarrow> bool" where
  "Location_valid l = (m_x l \<noteq> undefined_coordinate \<and> m_y l \<noteq> undefined_coordinate)"

subsection \<open>NodeRef and its comparison operators\<close>

record NodeRef =
  m_ref :: object_id_type
  m_location :: Location

definition NodeRef_eq :: "NodeRef \<Rightarrow> NodeRef \<Rightarrow> bool" where
  "NodeRef_eq lhs rhs = (m_ref lhs = m_ref rhs)"

definition NodeRef_ne :: "NodeRef \<Rightarrow> NodeRef \<Rightarrow> bool" where
  "NodeRef_ne lhs rhs = (\<not> NodeRef_eq lhs rhs)"

definition NodeRef_lt :: "NodeRef \<Rightarrow> NodeRef \<Rightarrow> bool" where
  "NodeRef_lt lhs rhs = (sint (m_ref lhs) < sint (m_ref rhs))"

definition NodeRef_gt :: "NodeRef \<Rightarrow> NodeRef \<Rightarrow> bool" where
  "NodeRef_gt lhs rhs = NodeRef_lt rhs lhs"

definition NodeRef_le :: "NodeRef \<Rightarrow> NodeRef \<Rightarrow> bool" where
  "NodeRef_le lhs rhs = (\<not> NodeRef_lt rhs lhs)"

definition NodeRef_ge :: "NodeRef \<Rightarrow> NodeRef \<Rightarrow> bool" where
  "NodeRef_ge lhs rhs = (\<not> NodeRef_lt lhs rhs)"

section \<open>Data written by the builders\<close>

text \<open>
  Modelled from the spec: the headers declaring the entity classes, the header, the
  buffer and the builders (osmium/osm/*.hpp, osmium/io/header.hpp,
  osmium/memory/buffer.hpp, osmium/builder/*.hpp) are not part of the sources at hand.
  Their data is modelled from sections 3, 4.1 and 4.2 of the specification: an entity
  carries the common attributes and a sequence of nested lists in the order in which they
  were written; a header is a key/value mapping with a list of boxes and the
  multiple-object-versions flag; a box grows to include a defined location.
\<close>

datatype item_type =
    item_type_undefined
  | item_type_node
  | item_type_way
  | item_type_relation
  | item_type_area
  | item_type_changeset

record Box =
  m_bottom_left :: Location
  m_top_right :: Location

definition Box_default :: Box where
  "Box_default = \<lparr>m_bottom_left = Location_default, m_top_right = Location_default\<rparr>"

definition Box_extend :: "Location \<Rightarrow> Box \<Rightarrow> Box" where
  "Box_extend l b =
     (if Location_valid l then
        (if Location_valid (m_bottom_left b) then
           \<lparr>m_bottom_left =
              \<lparr>m_x = (if sint (m_x l) < sint (m_x (m_bottom_left b)) then m_x l
                       else m_x (m_bottom_left b)),
               m_y = (if sint (m_y l) < sint (m_y (m_bottom_left b)) then m_y l
                       else m_y (m_bottom_left b))\<rparr>,
            m_top_right =
              \<lparr>m_x = (if sint (m_x (m_top_right b)) < sint (m_x l) then m_x l
                       else m_x (m_top_right b)),
               m_y = (if sint (m_y (m_top_right b)) < sint (m_y l) then m_y l
                       else m_y (m_top_right b))\<rparr>\<rparr>
         else \<lparr>m_bottom_left = l, m_top_right = l\<rparr>)
      else b)"

record Header =
  m_options :: attrs
  m_boxes :: "Box list"
  m_has_multiple_object_versions :: bool

definition Header_default :: Header where
  "Header_default = \<lparr>m_options = [], m_boxes = [], m_has_multiple_object_versions = False\<rparr>"

definition Header_set :: "string \<Rightarrow> string \<Rightarrow> Header \<Rightarrow> Header" where
  "Header_set k v h = h\<lparr>m_options := AList.update k v (m_options h)\<rparr>"

definition Header_get :: "string \<Rightarrow> Header \<Rightarrow> string" where
  "Header_get k h = (case map_of (m_options h) k of None \<Rightarrow> [] | Some v \<Rightarrow> v)"

definition Header_add_box :: "Box \<Rightarrow> Header \<Rightarrow> Header" where
  "Header_add_box b h = h\<lparr>m_boxes := m_boxes h @ [b]\<rparr>"

record osm_object =
  object_type :: item_type
  object_id :: object_id_type
  object_version :: "32 word"
  object_timestamp :: "32 word"
  object_uid :: user_id_type
  object_changeset :: "32 word"
  object_visible :: bool
  object_user :: string
  object_location :: Location
  object_bounds :: Box

definition new_object :: "item_type \<Rightarrow> osm_object" where
  "new_object t =
     \<lparr>object_type = t, object_id = 0, object_version = 0, object_timestamp = 0,
      object_uid = 0, object_changeset = 0, object_visible = True, object_user = [],
      object_location = Location_default, object_bounds = Box_default\<rparr>"

record member =
  member_type :: item_type
  member_ref :: object_id_type
  member_role :: string

record changeset_comment =
  comment_date :: "32 word"
  comment_uid :: user_id_type
  comment_user :: string
  comment_body :: string

datatype subitem =
    TagList "(string \<times> string) list"
  | WayNodeList "NodeRef list"
  | RelationMemberList "member list"
  | ChangesetDiscussion "changeset_comment list"

record entity =
  entity_object :: osm_object
  subitems :: "subitem list"

record Buffer =
  m_capacity :: nat
  m_written :: "entity list"
  m_committed :: "entity list"

definition Buffer_new :: "nat \<Rightarrow> Buffer" where
  "Buffer_new n = \<lparr>m_capacity = n, m_written = [], m_committed = []\<rparr>"

definition Buffer_commit :: "Buffer \<Rightarrow> Buffer" where
  "Buffer_commit b = b\<lparr>m_committed := m_written b\<rparr>"

text \<open>
  The helpers that the parser calls and whose code is not at hand are parameters of the
  model: the conversions of osmium/osm/types_from_string.hpp, item_type.hpp,
  timestamp.hpp and location.hpp (\<open>atof_fix v\<close> is the fixed-point coordinate stored by
  \<^verbatim>\<open>set_lon(atof(v))\<close>), \<^verbatim>\<open>set_attribute\<close> of OSMObject and of Changeset, and the
  number of bytes an entity occupies in the packed layout. \<open>ndebug\<close> says whether the
  \<^verbatim>\<open>assert\<close>s are compiled out.
\<close>

record externals =
  ndebug :: bool
  char_to_item_type :: "char \<Rightarrow> item_type"
  string_to_object_id :: "string \<Rightarrow> object_id_type"
  string_to_user_id :: "string \<Rightarrow> user_id_type"
  Timestamp :: "string \<Rightarrow> 32 word"
  atof_fix :: "string \<Rightarrow> 32 word"
  object_set_attribute :: "string \<Rightarrow> string \<Rightarrow> osm_object \<Rightarrow> osm_object"
  changeset_set_attribute :: "string \<Rightarrow> string \<Rightarrow> osm_object \<Rightarrow> osm_object"
  entity_size :: "entity \<Rightarrow> nat"

definition Buffer_committed :: "externals \<Rightarrow> Buffer \<Rightarrow> nat" where
  "Buffer_committed E b = sum_list (map (entity_size E) (m_committed b))"

section \<open>The XML parser (xml_input_format.hpp)\<close>

datatype error =
    xml_error string
  | xml_parse_error
  | format_version_error "string option"
  | assertion_failed
  | null_pointer_dereference

datatype xml_context =
    context_root
  | context_top
  | context_node
  | context_way
  | context_relation
  | context_changeset
  | context_discussion
  | context_comment
  | context_comment_text
  | context_ignored_node
  | context_ignored_way
  | context_ignored_relation
  | context_ignored_changeset
  | context_in_object

text \<open>
  The errors are the exceptions the parser throws: \<open>xml_error\<close> with a message
  (\<^verbatim>\<open>xml_error(const std::string&)\<close>), \<open>xml_parse_error\<close> for
  \<^verbatim>\<open>xml_error(XML_Parser)\<close> after Expat has reported an error,
  \<open>format_version_error\<close> with the version it carries (\<open>None\<close> for the constructor
  without argument), a failed \<^verbatim>\<open>assert\<close>, and a call through a null builder
  pointer.
\<close>

text \<open>
  Modelled from the spec: the builder classes, the base class \<^verbatim>\<open>Parser\<close>
  (osmium/io/detail/input_format.hpp) and the entity bits (osmium/osm/entity_bits.hpp) are
  not part of the sources at hand. A sub-list builder holds the region it has open;
  destroying it (\<^verbatim>\<open>reset()\<close>) seals the region into the entity of its parent
  builder ("Builders exist only for the duration of one entity or one nested list; their
  destruction seals the region they wrote"). The sealed lists of an entity are kept in the
  order in which they were sealed, which is the order in which they were opened as long
  as at most one sub-list builder is alive; this is proved below for every reachable
  state. An entity builder holds the entity under construction; destroying it leaves
  the finished entity in the written part of the buffer. The fields below
  \<open>m_comment_text\<close> belong to the base class: the entity mask \<open>m_read_types\<close> is the
  set of kinds the consumer wants (the empty set is \<^verbatim>\<open>osm_entity_bits::nothing\<close>),
  \<open>m_output_queue\<close> is the list of buffers sent so far, and \<open>m_header_promise\<close> is the
  list of values passed to \<^verbatim>\<open>set_value\<close>, empty while the promise is pending.
\<close>

record TagListBuilder =
  tl_parent :: item_type
  tl_tags :: "(string \<times> string) list"

record XMLParser =
  m_context :: xml_context
  m_last_context :: xml_context
  m_in_delete_section :: bool
  m_header :: Header
  m_buffer :: Buffer
  m_node_builder :: "entity option"
  m_way_builder :: "entity option"
  m_relation_builder :: "entity option"
  m_changeset_builder :: "entity option"
  m_changeset_discussion_builder :: "changeset_comment list option"
  m_tl_builder :: "TagListBuilder option"
  m_wnl_builder :: "NodeRef list option"
  m_rml_builder :: "member list option"
  m_comment_text :: string
  m_read_types :: "item_type set"
  m_input_queue_done :: bool
  m_header_is_done :: bool
  m_output_queue :: "Buffer list"
  m_header_promise :: "Header list"

type_synonym result = "(error \<times> XMLParser) + XMLParser"

definition buffer_size :: nat where
  "buffer_size = 2 * 1000 * 1000"

definition XMLParser_init :: "item_type set \<Rightarrow> XMLParser" where
  "XMLParser_init read_types =
     \<lparr>m_context = context_root, m_last_context = context_root,
      m_in_delete_section = False, m_header = Header_default,
      m_buffer = Buffer_new buffer_size,
      m_node_builder = None, m_way_builder = None, m_relation_builder = None,
      m_changeset_builder = None, m_changeset_discussion_builder = None,
      m_tl_builder = None, m_wnl_builder = None, m_rml_builder = None,
      m_comment_text = [], m_read_types = read_types,
      m_input_queue_done = False, m_header_is_done = False,
      m_output_queue = [], m_header_promise = []\<rparr>"

subsection \<open>Builders\<close>

text \<open>
  \<open>seal\<close> appends a finished list to the entity of the parent builder;
  \<open>reset_tl_builder\<close> and its siblings are \<^verbatim>\<open>m_tl_builder.reset()\<close> and so on, which
  do nothing on a null pointer. \<open>add_comment_text\<close> attaches the body to the current
  comment, the one added last.
\<close>

definition add_item :: "subitem \<Rightarrow> entity option \<Rightarrow> entity option" where
  "add_item it b = map_option (\<lambda>e. e\<lparr>subitems := subitems e @ [it]\<rparr>) b"

definition seal :: "item_type \<Rightarrow> subitem \<Rightarrow> XMLParser \<Rightarrow> XMLParser" where
  "seal parent it s =
     (case parent of
        item_type_node \<Rightarrow> s\<lparr>m_node_builder := add_item it (m_node_builder s)\<rparr>
      | item_type_way \<Rightarrow> s\<lparr>m_way_builder := add_item it (m_way_builder s)\<rparr>
      | item_type_relation \<Rightarrow> s\<lparr>m_relation_builder := add_item it (m_relation_builder s)\<rparr>
      | item_type_changeset \<Rightarrow> s\<lparr>m_changeset_builder := add_item it (m_changeset_builder s)\<rparr>
      | _ \<Rightarrow> s)"

definition reset_tl_builder :: "XMLParser \<Rightarrow> XMLParser" where
  "reset_tl_builder s =
     (case m_tl_builder s of
        None \<Rightarrow> s
      | Some b \<Rightarrow> seal (tl_parent b) (TagList (tl_tags b)) (s\<lparr>m_tl_builder := None\<rparr>))"

definition reset_wnl_builder :: "XMLParser \<Rightarrow> XMLParser" where
  "reset_wnl_builder s =
     (case m_wnl_builder s of
        None \<Rightarrow> s
      | Some ns \<Rightarrow> seal item_type_way (WayNodeList ns) (s\<lparr>m_wnl_builder := None\<rparr>))"

definition reset_rml_builder :: "XMLParser \<Rightarrow> XMLParser" where
  "reset_rml_builder s =
     (case m_rml_builder s of
        None \<Rightarrow> s
      | Some ms \<Rightarrow> seal item_type_relation (RelationMemberList ms) (s\<lparr>m_rml_builder := None\<rparr>))"

definition reset_changeset_discussion_builder :: "XMLParser \<Rightarrow> XMLParser" where
  "reset_changeset_discussion_builder s =
     (case m_changeset_discussion_builder s of
        None \<Rightarrow> s
      | Some cs \<Rightarrow> seal item_type_changeset (ChangesetDiscussion cs)
                    (s\<lparr>m_changeset_discussion_builder := None\<rparr>))"

definition Buffer_add :: "entity option \<Rightarrow> Buffer \<Rightarrow> Buffer" where
  "Buffer_add b buf = (case b of None \<Rightarrow> buf | Some e \<Rightarrow> buf\<lparr>m_written := m_written buf @ [e]\<rparr>)"

definition reset_node_builder :: "XMLParser \<Rightarrow> XMLParser" where
  "reset_node_builder s =
     s\<lparr>m_buffer := Buffer_add (m_node_builder s) (m_buffer s), m_node_builder := None\<rparr>"

definition reset_way_builder :: "XMLParser \<Rightarrow> XMLParser" where
  "reset_way_builder s =
     s\<lparr>m_buffer := Buffer_add (m_way_builder s) (m_buffer s), m_way_builder := None\<rparr>"

definition reset_relation_builder :: "XMLParser \<Rightarrow> XMLParser" where
  "reset_relation_builder s =
     s\<lparr>m_buffer := Buffer_add (m_relation_builder s) (m_buffer s), m_relation_builder := None\<rparr>"

definition reset_changeset_builder :: "XMLParser \<Rightarrow> XMLParser" where
  "reset_changeset_builder s =
     s\<lparr>m_buffer := Buffer_add (m_changeset_builder s) (m_buffer s), m_changeset_builder := None\<rparr>"

definition add_comment_text :: "string \<Rightarrow> changeset_comment list \<Rightarrow> changeset_comment list" where
  "add_comment_text body cs =
     (case rev cs of [] \<Rightarrow> [] | c # earlier \<Rightarrow> rev earlier @ [c\<lparr>comment_body := body\<rparr>])"

subsection \<open>Attribute handling\<close>

fun check_attributes :: "attrs \<Rightarrow> ('a \<Rightarrow> string \<Rightarrow> string \<Rightarrow> 'a) \<Rightarrow> 'a \<Rightarrow> 'a" where
  "check_attributes [] check acc = acc"
| "check_attributes (nv # rest) check acc =
     check_attributes rest check (check acc (fst nv) (snd nv))"

definition init_object_check ::
  "externals \<Rightarrow> Location \<times> string \<times> osm_object \<Rightarrow> string \<Rightarrow> string
     \<Rightarrow> Location \<times> string \<times> osm_object" where
  "init_object_check E acc name v =
     (case acc of (location, user, object) \<Rightarrow>
        if name = ''lon'' then (location\<lparr>m_x := atof_fix E v\<rparr>, user, object)
        else if name = ''lat'' then (location\<lparr>m_y := atof_fix E v\<rparr>, user, object)
        else if name = ''user'' then (location, v, object)
        else (location, user, object_set_attribute E name v object))"

definition init_object :: "externals \<Rightarrow> bool \<Rightarrow> osm_object \<Rightarrow> attrs \<Rightarrow> string \<times> osm_object" where
  "init_object E in_delete_section object attrs =
     (case check_attributes attrs (init_object_check E)
             (Location_default, [],
              if in_delete_section then object\<lparr>object_visible := False\<rparr> else object) of
        (location, user, object') \<Rightarrow>
          (user,
           if Location_valid location \<and> object_type object' = item_type_node
           then object'\<lparr>object_location := location\<rparr> else object'))"

definition init_changeset_check ::
  "externals \<Rightarrow> Location \<times> Location \<times> string \<times> osm_object \<Rightarrow> string \<Rightarrow> string
     \<Rightarrow> Location \<times> Location \<times> string \<times> osm_object" where
  "init_changeset_check E acc name v =
     (case acc of (lmin, lmax, user, new_changeset) \<Rightarrow>
        if name = ''min_lon'' then (lmin\<lparr>m_x := atof_fix E v\<rparr>, lmax, user, new_changeset)
        else if name = ''min_lat'' then (lmin\<lparr>m_y := atof_fix E v\<rparr>, lmax, user, new_changeset)
        else if name = ''max_lon'' then (lmin, lmax\<lparr>m_x := atof_fix E v\<rparr>, user, new_changeset)
        else if name = ''max_lat'' then (lmin, lmax\<lparr>m_y := atof_fix E v\<rparr>, user, new_changeset)
        else if name = ''user'' then (lmin, lmax, v, new_changeset)
        else (lmin, lmax, user, changeset_set_attribute E name v new_changeset))"

definition init_changeset :: "externals \<Rightarrow> osm_object \<Rightarrow> attrs \<Rightarrow> osm_object" where
  "init_changeset E object attrs =
     (case check_attributes attrs (init_changeset_check E)
             (Location_default, Location_default, [], object) of
        (lmin, lmax, user, new_changeset) \<Rightarrow>
          new_changeset
            \<lparr>object_bounds := Box_extend lmax (Box_extend lmin (object_bounds new_changeset)),
             object_user := user\<rparr>)"

definition get_tag_check :: "string \<times> string \<Rightarrow> string \<Rightarrow> string \<Rightarrow> string \<times> string" where
  "get_tag_check acc name v =
     (if name = ''k'' then (v, snd acc) else if name = ''v'' then (fst acc, v) else acc)"

definition get_tag :: "item_type \<Rightarrow> attrs \<Rightarrow> XMLParser \<Rightarrow> XMLParser" where
  "get_tag builder attrs s =
     (let kv = check_attributes attrs get_tag_check ([], []);
          b = (case m_tl_builder s of
                 None \<Rightarrow> \<lparr>tl_parent = builder, tl_tags = []\<rparr>
               | Some b \<Rightarrow> b)
      in s\<lparr>m_tl_builder := Some (b\<lparr>tl_tags := tl_tags b @ [kv]\<rparr>)\<rparr>)"

definition header_is_done :: "XMLParser \<Rightarrow> XMLParser" where
  "header_is_done s =
     (if \<not> m_header_is_done s
      then s\<lparr>m_header_is_done := True, m_header_promise := m_header_promise s @ [m_header s]\<rparr>
      else s)"

definition send_to_output_queue :: "Buffer \<Rightarrow> XMLParser \<Rightarrow> XMLParser" where
  "send_to_output_queue b s = s\<lparr>m_output_queue := m_output_queue s @ [b]\<rparr>"

definition flush_buffer :: "externals \<Rightarrow> XMLParser \<Rightarrow> XMLParser" where
  "flush_buffer E s =
     (if Buffer_committed E (m_buffer s) > buffer_size div 10 * 9
      then (send_to_output_queue (m_buffer s) s)\<lparr>m_buffer := Buffer_new buffer_size\<rparr>
      else s)"

subsection \<open>start_element\<close>

fun root_check :: "attrs \<Rightarrow> Header \<Rightarrow> (error \<times> Header) + Header" where
  "root_check [] h = Inr h"
| "root_check (nv # rest) h =
     (if fst nv = ''version'' then
        (if snd nv \<noteq> ''0.6''
         then Inl (format_version_error (Some (snd nv)), Header_set ''version'' (snd nv) h)
         else root_check rest (Header_set ''version'' (snd nv) h))
      else if fst nv = ''generator'' then root_check rest (Header_set ''generator'' (snd nv) h)
      else root_check rest h)"

definition start_root :: "string \<Rightarrow> attrs \<Rightarrow> XMLParser \<Rightarrow> result" where
  "start_root element attrs s =
     (if element = ''osm'' \<or> element = ''osmChange'' then
        (let s1 = (if element = ''osmChange''
                   then s\<lparr>m_header := (m_header s)\<lparr>m_has_multiple_object_versions := True\<rparr>\<rparr>
                   else s)
         in case root_check attrs (m_header s1) of
              Inl (e, h) \<Rightarrow> Inl (e, s1\<lparr>m_header := h\<rparr>)
            | Inr h \<Rightarrow>
                if Header_get ''version'' h = []
                then Inl (format_version_error None, s1\<lparr>m_header := h\<rparr>)
                else Inr (s1\<lparr>m_header := h, m_context := context_top\<rparr>))
      else Inl (xml_error (''Unknown top-level element: '' @ element), s))"

definition bounds_check ::
  "externals \<Rightarrow> Location \<times> Location \<Rightarrow> string \<Rightarrow> string \<Rightarrow> Location \<times> Location" where
  "bounds_check E acc name v =
     (case acc of (lmin, lmax) \<Rightarrow>
        if name = ''minlon'' then (lmin\<lparr>m_x := atof_fix E v\<rparr>, lmax)
        else if name = ''minlat'' then (lmin\<lparr>m_y := atof_fix E v\<rparr>, lmax)
        else if name = ''maxlon'' then (lmin, lmax\<lparr>m_x := atof_fix E v\<rparr>)
        else if name = ''maxlat'' then (lmin, lmax\<lparr>m_y := atof_fix E v\<rparr>)
        else (lmin, lmax))"

text \<open>
  In state Top an entity builder is created for a selected kind: the object starts with
  the defaults, \<open>init_object\<close> (or \<open>init_changeset\<close>) reads the attributes, and
  \<^verbatim>\<open>add_user\<close> stores the user name. Assigning the new builder to the
  \<^verbatim>\<open>unique_ptr\<close> destroys a builder it still holds.
\<close>

definition new_object_builder :: "externals \<Rightarrow> bool \<Rightarrow> item_type \<Rightarrow> attrs \<Rightarrow> entity" where
  "new_object_builder E in_delete_section t attrs =
     (case init_object E in_delete_section (new_object t) attrs of
        (user, object) \<Rightarrow> \<lparr>entity_object = object\<lparr>object_user := user\<rparr>, subitems = []\<rparr>)"

definition start_top :: "externals \<Rightarrow> string \<Rightarrow> attrs \<Rightarrow> XMLParser \<Rightarrow> result" where
  "start_top E element attrs s =
     (if \<not> ndebug E \<and> m_tl_builder s \<noteq> None then Inl (assertion_failed, s)
      else if element = ''node'' then
        (let s1 = header_is_done s in
         if item_type_node \<in> m_read_types s1
         then Inr ((reset_node_builder s1)
                \<lparr>m_node_builder :=
                   Some (new_object_builder E (m_in_delete_section s1) item_type_node attrs),
                 m_context := context_node\<rparr>)
         else Inr (s1\<lparr>m_context := context_ignored_node\<rparr>))
      else if element = ''way'' then
        (let s1 = header_is_done s in
         if item_type_way \<in> m_read_types s1
         then Inr ((reset_way_builder s1)
                \<lparr>m_way_builder :=
                   Some (new_object_builder E (m_in_delete_section s1) item_type_way attrs),
                 m_context := context_way\<rparr>)
         else Inr (s1\<lparr>m_context := context_ignored_way\<rparr>))
      else if element = ''relation'' then
        (let s1 = header_is_done s in
         if item_type_relation \<in> m_read_types s1
         then Inr ((reset_relation_builder s1)
                \<lparr>m_relation_builder :=
                   Some (new_object_builder E (m_in_delete_section s1) item_type_relation attrs),
                 m_context := context_relation\<rparr>)
         else Inr (s1\<lparr>m_context := context_ignored_relation\<rparr>))
      else if element = ''changeset'' then
        (let s1 = header_is_done s in
         if item_type_changeset \<in> m_read_types s1
         then Inr ((reset_changeset_builder s1)
                \<lparr>m_changeset_builder :=
                   Some \<lparr>entity_object = init_changeset E (new_object item_type_changeset) attrs,
                         subitems = []\<rparr>,
                 m_context := context_changeset\<rparr>)
         else Inr (s1\<lparr>m_context := context_ignored_changeset\<rparr>))
      else if element = ''bounds'' then
        (case check_attributes attrs (bounds_check E) (Location_default, Location_default) of
           (lmin, lmax) \<Rightarrow>
             Inr (s\<lparr>m_header :=
                      Header_add_box (Box_extend lmax (Box_extend lmin Box_default)) (m_header s)\<rparr>))
      else if element = ''delete'' then Inr (s\<lparr>m_in_delete_section := True\<rparr>)
      else Inr s)"

definition start_node :: "string \<Rightarrow> attrs \<Rightarrow> XMLParser \<Rightarrow> result" where
  "start_node element attrs s =
     (let s1 = s\<lparr>m_last_context := context_node, m_context := context_in_object\<rparr>
      in if element = ''tag'' then Inr (get_tag item_type_node attrs s1) else Inr s1)"

definition nd_check :: "externals \<Rightarrow> NodeRef list \<Rightarrow> string \<Rightarrow> string \<Rightarrow> NodeRef list" where
  "nd_check E refs name v =
     (if name = ''ref''
      then refs @ [\<lparr>m_ref = string_to_object_id E v, m_location = Location_default\<rparr>]
      else refs)"

definition start_way :: "externals \<Rightarrow> string \<Rightarrow> attrs \<Rightarrow> XMLParser \<Rightarrow> result" where
  "start_way E element attrs s =
     (let s1 = s\<lparr>m_last_context := context_way, m_context := context_in_object\<rparr>
      in if element = ''nd'' then
           (let s2 = reset_tl_builder s1;
                refs = (case m_wnl_builder s2 of None \<Rightarrow> [] | Some refs \<Rightarrow> refs)
            in Inr (s2\<lparr>m_wnl_builder := Some (check_attributes attrs (nd_check E) refs)\<rparr>))
         else if element = ''tag'' then Inr (get_tag item_type_way attrs (reset_wnl_builder s1))
         else Inr s1)"

definition first_char :: "string \<Rightarrow> char" where
  "first_char v = (case v of [] \<Rightarrow> CHR 0x00 | c # _ \<Rightarrow> c)"

definition member_check ::
  "externals \<Rightarrow> item_type \<times> object_id_type \<times> string \<Rightarrow> string \<Rightarrow> string
     \<Rightarrow> item_type \<times> object_id_type \<times> string" where
  "member_check E acc name v =
     (case acc of (type, ref, role) \<Rightarrow>
        if name = ''type'' then (char_to_item_type E (first_char v), ref, role)
        else if name = ''ref'' then (type, string_to_object_id E v, role)
        else if name = ''role'' then (type, ref, v)
        else (type, ref, role))"

definition start_relation :: "externals \<Rightarrow> string \<Rightarrow> attrs \<Rightarrow> XMLParser \<Rightarrow> result" where
  "start_relation E element attrs s =
     (let s1 = s\<lparr>m_last_context := context_relation, m_context := context_in_object\<rparr>
      in if element = ''member'' then
           (let s2 = reset_tl_builder s1;
                s3 = (if m_rml_builder s2 = None then s2\<lparr>m_rml_builder := Some []\<rparr> else s2)
            in case check_attributes attrs (member_check E) (item_type_undefined, 0, []) of
                 (type, ref, role) \<Rightarrow>
                   if type \<noteq> item_type_node \<and> type \<noteq> item_type_way \<and> type \<noteq> item_type_relation
                   then Inl (xml_error ''Unknown type on relation member'', s3)
                   else if ref = 0
                   then Inl (xml_error ''Missing ref on relation member'', s3)
                   else Inr (s3\<lparr>m_rml_builder :=
                               map_option (\<lambda>ms. ms @ [\<lparr>member_type = type, member_ref = ref,
                                                        member_role = role\<rparr>])
                                 (m_rml_builder s3)\<rparr>))
         else if element = ''tag'' then Inr (get_tag item_type_relation attrs (reset_rml_builder s1))
         else Inr s1)"

definition start_changeset :: "string \<Rightarrow> attrs \<Rightarrow> XMLParser \<Rightarrow> result" where
  "start_changeset element attrs s =
     (let s1 = s\<lparr>m_last_context := context_changeset\<rparr>
      in if element = ''discussion'' then
           (let s2 = reset_tl_builder (s1\<lparr>m_context := context_discussion\<rparr>)
            in if m_changeset_discussion_builder s2 = None
               then Inr (s2\<lparr>m_changeset_discussion_builder := Some []\<rparr>)
               else Inr s2)
         else if element = ''tag'' then
           Inr (get_tag item_type_changeset attrs
                  (reset_changeset_discussion_builder (s1\<lparr>m_context := context_in_object\<rparr>)))
         else Inr s1)"

definition comment_check ::
  "externals \<Rightarrow> changeset_comment \<Rightarrow> string \<Rightarrow> string \<Rightarrow> changeset_comment" where
  "comment_check E c name v =
     (if name = ''date'' then c\<lparr>comment_date := Timestamp E v\<rparr>
      else if name = ''uid'' then c\<lparr>comment_uid := string_to_user_id E v\<rparr>
      else if name = ''user'' then c\<lparr>comment_user := v\<rparr>
      else c)"

definition start_discussion :: "externals \<Rightarrow> string \<Rightarrow> attrs \<Rightarrow> XMLParser \<Rightarrow> result" where
  "start_discussion E element attrs s =
     (if element = ''comment'' then
        (let s1 = s\<lparr>m_context := context_comment\<rparr>;
             c = check_attributes attrs (comment_check E)
                   \<lparr>comment_date = 0, comment_uid = 0, comment_user = [], comment_body = []\<rparr>
         in case m_changeset_discussion_builder s1 of
              None \<Rightarrow> Inl (null_pointer_dereference, s1)
            | Some cs \<Rightarrow> Inr (s1\<lparr>m_changeset_discussion_builder := Some (cs @ [c])\<rparr>))
      else Inr s)"

definition start_element :: "externals \<Rightarrow> string \<Rightarrow> attrs \<Rightarrow> XMLParser \<Rightarrow> result" where
  "start_element E element attrs s =
     (case m_context s of
        context_root \<Rightarrow> start_root element attrs s
      | context_top \<Rightarrow> start_top E element attrs s
      | context_node \<Rightarrow> start_node element attrs s
      | context_way \<Rightarrow> start_way E element attrs s
      | context_relation \<Rightarrow> start_relation E element attrs s
      | context_changeset \<Rightarrow> start_changeset element attrs s
      | context_discussion \<Rightarrow> start_discussion E element attrs s
      | context_comment \<Rightarrow>
          (if element = ''text'' then Inr (s\<lparr>m_context := context_comment_text\<rparr>) else Inr s)
      | context_comment_text \<Rightarrow> Inr s
      | context_ignored_node \<Rightarrow> Inr s
      | context_ignored_way \<Rightarrow> Inr s
      | context_ignored_relation \<Rightarrow> Inr s
      | context_ignored_changeset \<Rightarrow> Inr s
      | context_in_object \<Rightarrow> (if ndebug E then Inr s else Inl (assertion_failed, s)))"

subsection \<open>end_element and characters\<close>

definition assert_that :: "externals \<Rightarrow> bool \<Rightarrow> XMLParser \<Rightarrow> result \<Rightarrow> result" where
  "assert_that E cond s r = (if cond \<or> ndebug E then r else Inl (assertion_failed, s))"

definition commit_and_flush :: "externals \<Rightarrow> XMLParser \<Rightarrow> XMLParser" where
  "commit_and_flush E s =
     flush_buffer E (s\<lparr>m_buffer := Buffer_commit (m_buffer s), m_context := context_top\<rparr>)"

definition end_element :: "externals \<Rightarrow> string \<Rightarrow> XMLParser \<Rightarrow> result" where
  "end_element E element s =
     (case m_context s of
        context_root \<Rightarrow> assert_that E False s (Inr s)
      | context_top \<Rightarrow>
          (if element = ''osm'' \<or> element = ''osmChange''
           then Inr ((header_is_done s)\<lparr>m_context := context_root\<rparr>)
           else if element = ''delete'' then Inr (s\<lparr>m_in_delete_section := False\<rparr>)
           else Inr s)
      | context_node \<Rightarrow>
          assert_that E (element = ''node'') s
            (Inr (commit_and_flush E (reset_node_builder (reset_tl_builder s))))
      | context_way \<Rightarrow>
          assert_that E (element = ''way'') s
            (Inr (commit_and_flush E
                    (reset_way_builder (reset_wnl_builder (reset_tl_builder s)))))
      | context_relation \<Rightarrow>
          assert_that E (element = ''relation'') s
            (Inr (commit_and_flush E
                    (reset_relation_builder (reset_rml_builder (reset_tl_builder s)))))
      | context_changeset \<Rightarrow>
          assert_that E (element = ''changeset'') s
            (Inr (commit_and_flush E
                    (reset_changeset_builder
                       (reset_changeset_discussion_builder (reset_tl_builder s)))))
      | context_discussion \<Rightarrow>
          assert_that E (element = ''discussion'') s (Inr (s\<lparr>m_context := context_changeset\<rparr>))
      | context_comment \<Rightarrow>
          assert_that E (element = ''comment'') s (Inr (s\<lparr>m_context := context_discussion\<rparr>))
      | context_comment_text \<Rightarrow>
          assert_that E (element = ''text'') s
            (let s1 = s\<lparr>m_context := context_comment\<rparr>
             in case m_changeset_discussion_builder s1 of
                  None \<Rightarrow> Inl (null_pointer_dereference, s1)
                | Some cs \<Rightarrow>
                    Inr (s1\<lparr>m_changeset_discussion_builder :=
                               Some (add_comment_text (m_comment_text s1) cs)\<rparr>))
      | context_in_object \<Rightarrow> Inr (s\<lparr>m_context := m_last_context s\<rparr>)
      | context_ignored_node \<Rightarrow>
          (if element = ''node'' then Inr (s\<lparr>m_context := context_top\<rparr>) else Inr s)
      | context_ignored_way \<Rightarrow>
          (if element = ''way'' then Inr (s\<lparr>m_context := context_top\<rparr>) else Inr s)
      | context_ignored_relation \<Rightarrow>
          (if element = ''relation'' then Inr (s\<lparr>m_context := context_top\<rparr>) else Inr s)
      | context_ignored_changeset \<Rightarrow>
          (if element = ''changeset'' then Inr (s\<lparr>m_context := context_top\<rparr>) else Inr s))"

definition characters :: "string \<Rightarrow> XMLParser \<Rightarrow> XMLParser" where
  "characters chars s =
     (if m_context s = context_comment_text
      then s\<lparr>m_comment_text := m_comment_text s @ chars\<rparr>
      else s\<lparr>m_comment_text := []\<rparr>)"

subsection \<open>The Expat wrapper and the parser task\<close>

text \<open>
  Expat is an external library: a chunk of input is represented by what
  \<^verbatim>\<open>XML_Parse\<close> makes of it, the callbacks it invokes in order and whether it then
  returns \<^verbatim>\<open>XML_STATUS_ERROR\<close>. An exception thrown by a callback ends the call;
  the state at the throw is kept with the error. The input queue is the list of chunks
  still to be popped; popping from an exhausted queue blocks for ever.
\<close>

datatype xml_event =
    StartElement string attrs
  | EndElement string
  | CharacterData string

record chunk =
  chunk_data :: string
  chunk_events :: "xml_event list"
  chunk_status_error :: bool

fun handle_event :: "externals \<Rightarrow> xml_event \<Rightarrow> XMLParser \<Rightarrow> result" where
  "handle_event E (StartElement element attrs) s = start_element E element attrs s"
| "handle_event E (EndElement element) s = end_element E element s"
| "handle_event E (CharacterData chars) s = Inr (characters chars s)"

fun deliver :: "externals \<Rightarrow> xml_event list \<Rightarrow> XMLParser \<Rightarrow> result" where
  "deliver E [] s = Inr s"
| "deliver E (ev # evs) s =
     (case handle_event E ev s of Inl x \<Rightarrow> Inl x | Inr s' \<Rightarrow> deliver E evs s')"

definition ExpatXMLParser_call :: "externals \<Rightarrow> chunk \<Rightarrow> XMLParser \<Rightarrow> result" where
  "ExpatXMLParser_call E c s =
     (case deliver E (chunk_events c) s of
        Inl x \<Rightarrow> Inl x
      | Inr s' \<Rightarrow> if chunk_status_error c then Inl (xml_parse_error, s') else Inr s')"

datatype iteration =
    Continue XMLParser
  | Break XMLParser
  | Throw error XMLParser

definition loop_body :: "externals \<Rightarrow> chunk \<Rightarrow> XMLParser \<Rightarrow> iteration" where
  "loop_body E c s =
     (case ExpatXMLParser_call E c (s\<lparr>m_input_queue_done := (chunk_data c = [])\<rparr>) of
        Inl (e, s') \<Rightarrow> Throw e s'
      | Inr s' \<Rightarrow> if m_read_types s' = {} \<and> m_header_is_done s' then Break s' else Continue s')"

datatype outcome =
    Returned XMLParser "chunk list"
  | Thrown error XMLParser "chunk list"
  | Blocked XMLParser

fun run_loop :: "externals \<Rightarrow> XMLParser \<Rightarrow> chunk list \<Rightarrow> outcome" where
  "run_loop E s [] = (if m_input_queue_done s then Returned s [] else Blocked s)"
| "run_loop E s (c # cs) =
     (if m_input_queue_done s then Returned s (c # cs)
      else case loop_body E c s of
             Continue s' \<Rightarrow> run_loop E s' cs
           | Break s' \<Rightarrow> Returned s' cs
           | Throw e s' \<Rightarrow> Thrown e s' cs)"

definition run_finish :: "externals \<Rightarrow> XMLParser \<Rightarrow> XMLParser" where
  "run_finish E s =
     (let s1 = header_is_done s
      in if Buffer_committed E (m_buffer s1) > 0
         then send_to_output_queue (m_buffer s1) s1 else s1)"

definition run :: "externals \<Rightarrow> XMLParser \<Rightarrow> chunk list \<Rightarrow> outcome" where
  "run E s q =
     (case run_loop E s q of
        Returned s' rest \<Rightarrow> Returned (run_finish E s') rest
      | Thrown e s' rest \<Rightarrow> Thrown e s' rest
      | Blocked s' \<Rightarrow> Blocked s')"

text \<open>
  The states in which the main loop pops the input queue (\<^verbatim>\<open>wait_and_pop\<close>), in
  order: the loop condition held there.
\<close>

fun pull_states :: "externals \<Rightarrow> XMLParser \<Rightarrow> chunk list \<Rightarrow> XMLParser list" where
  "pull_states E s [] = (if m_input_queue_done s then [] else [s])"
| "pull_states E s (c # cs) =
     (if m_input_queue_done s then []
      else s # (case loop_body E c s of
                  Continue s' \<Rightarrow> pull_states E s' cs
                | Break s' \<Rightarrow> []
                | Throw e s' \<Rightarrow> []))"

text \<open>
  Modelled from the spec: the entry of the parser task, \<^verbatim>\<open>Parser::operator()\<close> of the
  base class (osmium/io/detail/input_format.hpp), which \<^verbatim>\<open>XMLInputFormat\<close> starts as
  the thread, is not part of the sources at hand. It calls \<open>run\<close> and handles what \<open>run\<close>
  throws (section 4.6, step 5, and section 7 of the specification): "On any thrown error,
  resolve the header promise with that error (if still pending), propagate the error
  through the output channel as a terminal error record, and return." What the task
  leaves behind when it ends is the list of resolutions of the header promise, a header
  passed to \<^verbatim>\<open>set_value\<close> or an error passed to \<^verbatim>\<open>set_exception\<close>, and the records of
  the output channel; a task blocked on the input queue does not end.
\<close>

record task_end =
  header_resolutions :: "(error + Header) list"
  output_channel :: "(error + Buffer) list"

definition Parser_call :: "externals \<Rightarrow> XMLParser \<Rightarrow> chunk list \<Rightarrow> task_end option" where
  "Parser_call E s q =
     (case run E s q of
        Returned s' rest \<Rightarrow>
          Some \<lparr>header_resolutions = map Inr (m_header_promise s'),
                output_channel = map Inr (m_output_queue s')\<rparr>
      | Thrown e s' rest \<Rightarrow>
          Some \<lparr>header_resolutions =
                  map Inr (m_header_promise s') @ (if m_header_is_done s' then [] else [Inl e]),
                output_channel = map Inr (m_output_queue s') @ [Inl e]\<rparr>
      | Blocked s' \<Rightarrow> None)"

section \<open>Concrete inputs\<close>

text \<open>
  An instance of the external helpers, an entity mask that selects every kind, and the
  chunk that ends the stream: they are used to run the model on concrete documents.
\<close>

definition decimal :: "string \<Rightarrow> nat" where
  "decimal v = foldl (\<lambda>n c. 10 * n + (of_char c - 48)) 0 v"

definition example_externals :: externals where
  "example_externals =
     \<lparr>ndebug = False,
      char_to_item_type =
        (\<lambda>c. if c = CHR ''n'' then item_type_node
             else if c = CHR ''w'' then item_type_way
             else if c = CHR ''r'' then item_type_relation
             else item_type_undefined),
      string_to_object_id = (\<lambda>v. of_nat (decimal v)),
      string_to_user_id = (\<lambda>v. of_nat (decimal v)),
      Timestamp = (\<lambda>v. 0),
      atof_fix = (\<lambda>v. of_nat (decimal v)),
      object_set_attribute =
        (\<lambda>name v object.
           if name = ''visible'' then object\<lparr>object_visible := (v = ''true'')\<rparr>
           else if name = ''id'' then object\<lparr>object_id := of_nat (decimal v)\<rparr>
           else object),
      changeset_set_attribute =
        (\<lambda>name v object.
           if name = ''id'' then object\<lparr>object_id := of_nat (decimal v)\<rparr> else object),
      entity_size = (\<lambda>e. 8 * (1 + length (subitems e)))\<rparr>"

definition all_entities :: "item_type set" where
  "all_entities = {item_type_node, item_type_way, item_type_relation, item_type_changeset}"

definition end_of_stream :: chunk where
  "end_of_stream = \<lparr>chunk_data = [], chunk_events = [], chunk_status_error = False\<rparr>"

text \<open>
  What a delivery of events ends with: the exception thrown, if any, and the state of the
  parser at the end or at the throw.
\<close>

definition thrown :: "result \<Rightarrow> error option" where
  "thrown r = (case r of Inl x \<Rightarrow> Some (fst x) | Inr s \<Rightarrow> None)"

definition final_state :: "result \<Rightarrow> XMLParser" where
  "final_state r = (case r of Inl x \<Rightarrow> snd x | Inr s \<Rightarrow> s)"

definition one_chunk :: "xml_event list \<Rightarrow> chunk" where
  "one_chunk evs = \<lparr>chunk_data = ''(bytes)'', chunk_events = evs, chunk_status_error = False\<rparr>"

section \<open>Vocabulary of the statements\<close>

text \<open>
  The kind of entity a context belongs to (a sub-element in state InObject belongs to
  the context it was entered from), the condition on the builders that holds in every
  reachable state, the number of sub-list builders alive, and the relation between two
  states that says that the lists already sealed into the entities under construction
  are still in place.
\<close>

definition effective_context :: "XMLParser \<Rightarrow> xml_context" where
  "effective_context s =
     (if m_context s = context_in_object then m_last_context s else m_context s)"

fun builder_kind :: "xml_context \<Rightarrow> item_type" where
  "builder_kind context_node = item_type_node"
| "builder_kind context_way = item_type_way"
| "builder_kind context_relation = item_type_relation"
| "builder_kind context_changeset = item_type_changeset"
| "builder_kind context_discussion = item_type_changeset"
| "builder_kind context_comment = item_type_changeset"
| "builder_kind context_comment_text = item_type_changeset"
| "builder_kind _ = item_type_undefined"

definition builders_ok :: "item_type \<Rightarrow> XMLParser \<Rightarrow> bool" where
  "builders_ok k s =
     ((k \<noteq> item_type_node \<longrightarrow> m_node_builder s = None)
      \<and> (k \<noteq> item_type_way \<longrightarrow> m_way_builder s = None \<and> m_wnl_builder s = None)
      \<and> (k \<noteq> item_type_relation \<longrightarrow> m_relation_builder s = None \<and> m_rml_builder s = None)
      \<and> (k \<noteq> item_type_changeset \<longrightarrow>
            m_changeset_builder s = None \<and> m_changeset_discussion_builder s = None)
      \<and> (k = item_type_undefined \<longrightarrow> m_tl_builder s = None)
      \<and> (m_tl_builder s = None
           \<or> (m_wnl_builder s = None \<and> m_rml_builder s = None
                \<and> m_changeset_discussion_builder s = None)))"

definition builders_inv :: "XMLParser \<Rightarrow> bool" where
  "builders_inv s = builders_ok (builder_kind (effective_context s)) s"

definition alive_sub_builders :: "XMLParser \<Rightarrow> nat" where
  "alive_sub_builders s =
     (if m_tl_builder s = None then 0 else 1) + (if m_wnl_builder s = None then 0 else 1)
     + (if m_rml_builder s = None then 0 else 1)
     + (if m_changeset_discussion_builder s = None then 0 else 1)"

definition kept :: "entity option \<Rightarrow> entity option \<Rightarrow> bool" where
  "kept b b' =
     (case b of
        None \<Rightarrow> True
      | Some e \<Rightarrow>
          (case b' of
             None \<Rightarrow> True
           | Some e' \<Rightarrow> take (length (subitems e)) (subitems e') = subitems e))"

definition sealed_lists_kept :: "XMLParser \<Rightarrow> XMLParser \<Rightarrow> bool" where
  "sealed_lists_kept s s' =
     (kept (m_node_builder s) (m_node_builder s')
      \<and> kept (m_way_builder s) (m_way_builder s')
      \<and> kept (m_relation_builder s) (m_relation_builder s')
      \<and> kept (m_changeset_builder s) (m_changeset_builder s'))"

text \<open>
  The name of the first element reported in a sequence of events (the root element), the
  events of a sequence of chunks, the events at which a callback in state Top resolves
  the header promise, and the condition that relates the promise to the root element
  seen so far.
\<close>

fun first_start :: "xml_event list \<Rightarrow> string option" where
  "first_start [] = None"
| "first_start (StartElement element attrs # evs) = Some element"
| "first_start (ev # evs) = first_start evs"

definition events_of :: "chunk list \<Rightarrow> xml_event list" where
  "events_of q = concat (map chunk_events q)"

fun resolves :: "xml_event \<Rightarrow> bool" where
  "resolves (StartElement element attrs) =
     (element = ''node'' \<or> element = ''way'' \<or> element = ''relation'' \<or> element = ''changeset'')"
| "resolves (EndElement element) = (element = ''osm'' \<or> element = ''osmChange'')"
| "resolves (CharacterData chars) = False"

definition or_else :: "string option \<Rightarrow> string option \<Rightarrow> string option" where
  "or_else r x = (case r of None \<Rightarrow> x | Some n \<Rightarrow> Some n)"

definition header_inv :: "string option \<Rightarrow> XMLParser \<Rightarrow> bool" where
  "header_inv r s =
     (case r of
        None \<Rightarrow>
          m_context s = context_root \<and> \<not> m_header_is_done s \<and> m_header_promise s = []
          \<and> \<not> m_has_multiple_object_versions (m_header s)
      | Some n \<Rightarrow>
          if m_header_is_done s
          then map m_has_multiple_object_versions (m_header_promise s) = [n = ''osmChange'']
          else m_header_promise s = [] \<and> m_context s = context_top
             \<and> m_has_multiple_object_versions (m_header s) = (n = ''osmChange''))"

text \<open>
  What is known of the promise in a state at a throw: it is resolved with a header
  whose flag is that of the root element, or it is pending.
\<close>

definition promise_inv :: "string option \<Rightarrow> XMLParser \<Rightarrow> bool" where
  "promise_inv r s =
     (if m_header_is_done s
      then map m_has_multiple_object_versions (m_header_promise s) = [r = Some ''osmChange'']
      else m_header_promise s = [])"




definition written_entities :: "XMLParser \<Rightarrow> entity list" where
  "written_entities s = concat (map m_written (m_output_queue s)) @ m_written (m_buffer s)"






section \<open>Properties of NodeRef\<close>

text \<open>
  Claim C10. NodeRef equality and ordering look at the node id only and ignore the
  cached Location: \<open>a == b\<close> iff the refs are equal, \<open>a < b\<close> iff the ref of \<open>a\<close> is
  below the ref of \<open>b\<close> as signed 64-bit integers; two NodeRefs with the same ref
  compare equal whatever their Locations are; and \<open>!=\<close>, \<open>>\<close>, \<open><=\<close>, \<open>>=\<close> are
  determined by \<open>==\<close> and \<open><\<close>, which is a strict total order on the ref field
  (irreflexive, transitive, and any two NodeRefs are related by \<open><\<close>, \<open>==\<close> or \<open>>\<close>).
\<close>

theorem NodeRef_compare_by_ref:
  "(NodeRef_eq a b \<longleftrightarrow> m_ref a = m_ref b)
   \<and> (NodeRef_lt a b \<longleftrightarrow> sint (m_ref a) < sint (m_ref b))
   \<and> NodeRef_eq \<lparr>m_ref = r, m_location = l1\<rparr> \<lparr>m_ref = r, m_location = l2\<rparr>
   \<and> (NodeRef_ne a b \<longleftrightarrow> \<not> NodeRef_eq a b)
   \<and> (NodeRef_gt a b \<longleftrightarrow> NodeRef_lt b a)
   \<and> (NodeRef_le a b \<longleftrightarrow> NodeRef_lt a b \<or> NodeRef_eq a b)
   \<and> (NodeRef_ge a b \<longleftrightarrow> NodeRef_gt a b \<or> NodeRef_eq a b)
   \<and> \<not> NodeRef_lt a a
   \<and> (NodeRef_lt a b \<and> NodeRef_lt b c \<longrightarrow> NodeRef_lt a c)
   \<and> (NodeRef_lt a b \<or> NodeRef_eq a b \<or> NodeRef_gt a b)"
proof -
  have inj: "sint (m_ref a) = sint (m_ref b) \<longleftrightarrow> m_ref a = m_ref b"
    by (rule signed_word_eqI [THEN iffI]) simp_all
  have le: "NodeRef_le a b \<longleftrightarrow> NodeRef_lt a b \<or> NodeRef_eq a b"
    unfolding NodeRef_le_def NodeRef_lt_def NodeRef_eq_def inj [symmetric] by linarith
  have ge: "NodeRef_ge a b \<longleftrightarrow> NodeRef_gt a b \<or> NodeRef_eq a b"
    unfolding NodeRef_ge_def NodeRef_gt_def NodeRef_lt_def NodeRef_eq_def inj [symmetric]
    by linarith
  have tri: "NodeRef_lt a b \<or> NodeRef_eq a b \<or> NodeRef_gt a b"
    unfolding NodeRef_gt_def NodeRef_lt_def NodeRef_eq_def inj [symmetric] by linarith
  show ?thesis
    using le ge tri
    by (simp add: NodeRef_eq_def NodeRef_ne_def NodeRef_lt_def NodeRef_gt_def)
qed

theorem NodeRef_compare_by_ref_witness:
  "NodeRef_eq \<lparr>m_ref = 7, m_location = \<lparr>m_x = 1, m_y = 2\<rparr>\<rparr>
              \<lparr>m_ref = 7, m_location = \<lparr>m_x = 3, m_y = 4\<rparr>\<rparr>
   \<and> \<lparr>m_x = 1, m_y = 2\<rparr> \<noteq> \<lparr>m_x = 3 :: 32 word, m_y = 4 :: 32 word\<rparr>
   \<and> NodeRef_lt \<lparr>m_ref = -1, m_location = Location_default\<rparr>
                \<lparr>m_ref = 0, m_location = Location_default\<rparr>
   \<and> NodeRef_lt \<lparr>m_ref = 0, m_location = Location_default\<rparr>
                \<lparr>m_ref = 5, m_location = Location_default\<rparr>
   \<and> NodeRef_lt \<lparr>m_ref = -1, m_location = Location_default\<rparr>
                \<lparr>m_ref = 5, m_location = Location_default\<rparr>"
proof -
  let ?a = "\<lparr>m_ref = -1, m_location = Location_default\<rparr>"
  let ?b = "\<lparr>m_ref = 0, m_location = Location_default\<rparr>"
  let ?c = "\<lparr>m_ref = 5, m_location = Location_default\<rparr>"
  have ab: "NodeRef_lt ?a ?b" by (simp add: NodeRef_lt_def)
  have bc: "NodeRef_lt ?b ?c" by (simp add: NodeRef_lt_def)
  have "NodeRef_lt ?a ?b \<and> NodeRef_lt ?b ?c \<longrightarrow> NodeRef_lt ?a ?c"
    using NodeRef_compare_by_ref [of ?a ?b _ _ _ ?c] by blast
  with ab bc have ac: "NodeRef_lt ?a ?c" by blast
  have eq: "NodeRef_eq \<lparr>m_ref = 7, m_location = \<lparr>m_x = 1, m_y = 2\<rparr>\<rparr>
              \<lparr>m_ref = 7, m_location = \<lparr>m_x = 3, m_y = 4\<rparr>\<rparr>"
    using NodeRef_compare_by_ref [of _ _ 7 "\<lparr>m_x = 1, m_y = 2\<rparr>" "\<lparr>m_x = 3, m_y = 4\<rparr>"]
    by blast
  show ?thesis using ab bc ac eq by simp
qed

section \<open>Evaluation and general lemmas\<close>

lemma deliver_append:
  "deliver E (evs1 @ evs2) s =
     (case deliver E evs1 s of Inl x \<Rightarrow> Inl x | Inr s' \<Rightarrow> deliver E evs2 s')"
  by (induction evs1 arbitrary: s) (simp_all split: sum.splits)

lemmas canonical_defs =
  XMLParser_init_def start_element_def start_root_def start_top_def start_node_def
  start_way_def start_relation_def start_changeset_def start_discussion_def
  end_element_def characters_def assert_that_def commit_and_flush_def flush_buffer_def
  header_is_done_def send_to_output_queue_def get_tag_def get_tag_check_def
  new_object_builder_def init_object_def init_object_check_def init_changeset_def
  init_changeset_check_def new_object_def reset_tl_builder_def reset_wnl_builder_def
  reset_rml_builder_def reset_changeset_discussion_builder_def reset_node_builder_def
  reset_way_builder_def reset_relation_builder_def reset_changeset_builder_def seal_def
  add_item_def Buffer_add_def Buffer_new_def Buffer_commit_def Buffer_committed_def
  buffer_size_def Header_get_def Header_set_def Header_default_def Header_add_box_def
  member_check_def nd_check_def comment_check_def bounds_check_def add_comment_text_def
  first_char_def Location_default_def Location_valid_def Box_default_def Box_extend_def
  undefined_coordinate_def thrown_def final_state_def


lemma Header_get_set:
  "Header_get k (Header_set k' v h) = (if k = k' then v else Header_get k h)"
  by (simp add: Header_get_def Header_set_def update_conv')

lemma root_check_bad:
  "find (\<lambda>nv. fst nv = ''version'' \<and> snd nv \<noteq> ''0.6'') attrs = Some (n, v)
   \<Longrightarrow> \<exists>h'. root_check attrs h = Inl (format_version_error (Some v), h')"
  by (induction attrs arbitrary: h) (auto split: if_splits)

lemma root_check_no_version:
  "''version'' \<notin> fst ` set attrs
   \<Longrightarrow> \<exists>h'. root_check attrs h = Inr h' \<and> Header_get ''version'' h' = Header_get ''version'' h"
proof (induction attrs arbitrary: h)
  case Nil
  then show ?case by simp
next
  case (Cons nv attrs)
  then have nv: "fst nv \<noteq> ''version''" and rest: "''version'' \<notin> fst ` set attrs"
    by auto
  show ?case
  proof (cases "fst nv = ''generator''")
    case True
    from Cons.IH [OF rest, of "Header_set ''generator'' (snd nv) h"] nv True
    show ?thesis by (simp add: Header_get_set)
  next
    case False
    from Cons.IH [OF rest, of h] nv False show ?thesis by simp
  qed
qed



section \<open>The version check on the root element\<close>

lemma start_root_bad_version:
  assumes "m_context s = context_root"
    and "element = ''osm'' \<or> element = ''osmChange''"
    and "find (\<lambda>nv. fst nv = ''version'' \<and> snd nv \<noteq> ''0.6'') attrs = Some (n, v)"
  shows "\<exists>s'. start_element E element attrs s = Inl (format_version_error (Some v), s')
            \<and> m_output_queue s' = m_output_queue s \<and> m_buffer s' = m_buffer s
            \<and> m_header_promise s' = m_header_promise s"
proof -
  obtain h' where "root_check attrs (m_header s) = Inl (format_version_error (Some v), h')"
    using root_check_bad [OF assms(3)] by blast
  moreover obtain h'' where
    "root_check attrs ((m_header s)\<lparr>m_has_multiple_object_versions := True\<rparr>)
       = Inl (format_version_error (Some v), h'')"
    using root_check_bad [OF assms(3)] by blast
  ultimately show ?thesis
    using assms(1,2) by (auto simp: start_element_def start_root_def)
qed

lemma start_root_no_version:
  assumes "m_context s = context_root"
    and "element = ''osm'' \<or> element = ''osmChange''"
    and "''version'' \<notin> fst ` set attrs"
    and "Header_get ''version'' (m_header s) = []"
  shows "\<exists>s'. start_element E element attrs s = Inl (format_version_error None, s')
            \<and> m_output_queue s' = m_output_queue s \<and> m_buffer s' = m_buffer s
            \<and> m_header_promise s' = m_header_promise s"
proof -
  have get: "Header_get ''version'' (h\<lparr>m_has_multiple_object_versions := b\<rparr>)
               = Header_get ''version'' h" for h b
    by (simp add: Header_get_def)
  obtain h' where "root_check attrs (m_header s) = Inr h'" "Header_get ''version'' h' = []"
    using root_check_no_version [OF assms(3), of "m_header s"] assms(4) by auto
  moreover obtain h'' where
    "root_check attrs ((m_header s)\<lparr>m_has_multiple_object_versions := True\<rparr>) = Inr h''"
    "Header_get ''version'' h'' = []"
    using root_check_no_version
            [OF assms(3), of "(m_header s)\<lparr>m_has_multiple_object_versions := True\<rparr>"]
          assms(4) get by auto
  ultimately show ?thesis
    using assms(1,2) by (auto simp: start_element_def start_root_def)
qed

lemma loop_body_no_events:
  assumes "chunk_events c = []" "chunk_data c \<noteq> []" "\<not> chunk_status_error c"
    and "\<not> m_input_queue_done s" "\<not> m_header_is_done s"
  shows "loop_body E c s = Continue s"
proof -
  have "s\<lparr>m_input_queue_done := False\<rparr> = s"
    using assms(4) by (cases s) simp
  then show ?thesis
    using assms by (simp add: loop_body_def ExpatXMLParser_call_def)
qed

lemma run_loop_skip_no_events:
  assumes "\<forall>c \<in> set pre. chunk_events c = [] \<and> chunk_data c \<noteq> [] \<and> \<not> chunk_status_error c"
    and "\<not> m_input_queue_done s" "\<not> m_header_is_done s"
  shows "run_loop E s (pre @ q) = run_loop E s q"
  using assms by (induction pre) (simp_all add: loop_body_no_events)

lemma run_throws_at_first_event:
  assumes "chunk_events c = ev # evs"
    and "handle_event E ev (s\<lparr>m_input_queue_done := (chunk_data c = [])\<rparr>) = Inl (e, s')"
    and "\<not> m_input_queue_done s"
  shows "run E s (c # rest) = Thrown e s' rest"
  using assms by (simp add: run_def loop_body_def ExpatXMLParser_call_def)

text \<open>
  Claim C2. When the root element (the first element Expat reports, possibly after chunks
  that produce no callback) is \<open>osm\<close> or \<open>osmChange\<close>: if it has a \<open>version\<close> attribute
  whose value differs from \<open>0.6\<close>, the run of the parser ends with a
  \<open>format_version_error\<close> that carries that value; if it has no \<open>version\<close> attribute,
  the run ends with a \<open>format_version_error\<close> without a value. In both cases nothing has
  been sent to the output queue and nothing has been written to the buffer.
\<close>

theorem root_version_checked:
  assumes "element = ''osm'' \<or> element = ''osmChange''"
    and "\<forall>c \<in> set pre. chunk_events c = [] \<and> chunk_data c \<noteq> [] \<and> \<not> chunk_status_error c"
    and "chunk_events c = StartElement element attrs # evs"
  shows "(find (\<lambda>nv. fst nv = ''version'' \<and> snd nv \<noteq> ''0.6'') attrs = Some (n, v) \<longrightarrow>
           (\<exists>s'. run E (XMLParser_init read_types) (pre @ c # rest)
                    = Thrown (format_version_error (Some v)) s' rest
                \<and> m_output_queue s' = [] \<and> m_written (m_buffer s') = []))
       \<and> (''version'' \<notin> fst ` set attrs \<longrightarrow>
           (\<exists>s'. run E (XMLParser_init read_types) (pre @ c # rest)
                    = Thrown (format_version_error None) s' rest
                \<and> m_output_queue s' = [] \<and> m_written (m_buffer s') = []))"
proof -
  let ?s0 = "XMLParser_init read_types"
  let ?s1 = "?s0\<lparr>m_input_queue_done := (chunk_data c = [])\<rparr>"
  have init: "\<not> m_input_queue_done ?s0" "\<not> m_header_is_done ?s0"
    "m_context ?s1 = context_root" "Header_get ''version'' (m_header ?s1) = []"
    "m_output_queue ?s1 = []" "m_written (m_buffer ?s1) = []"
    by (simp_all add: XMLParser_init_def Header_get_def Header_default_def Buffer_new_def)
  have skip: "run E ?s0 (pre @ c # rest) = run E ?s0 (c # rest)"
    using run_loop_skip_no_events [OF assms(2) init(1,2)] by (simp add: run_def)
  have bad: "\<exists>s'. run E ?s0 (pre @ c # rest) = Thrown (format_version_error (Some v)) s' rest
                \<and> m_output_queue s' = [] \<and> m_written (m_buffer s') = []"
    if f: "find (\<lambda>nv. fst nv = ''version'' \<and> snd nv \<noteq> ''0.6'') attrs = Some (n, v)"
  proof -
    obtain s' where s': "start_element E element attrs ?s1 = Inl (format_version_error (Some v), s')"
      "m_output_queue s' = m_output_queue ?s1" "m_buffer s' = m_buffer ?s1"
      using start_root_bad_version [OF init(3) assms(1) f] by blast
    have "run E ?s0 (c # rest) = Thrown (format_version_error (Some v)) s' rest"
      by (rule run_throws_at_first_event [OF assms(3) _ init(1)]) (simp add: s'(1))
    with s' init skip show ?thesis by simp
  qed
  have missing: "\<exists>s'. run E ?s0 (pre @ c # rest) = Thrown (format_version_error None) s' rest
                \<and> m_output_queue s' = [] \<and> m_written (m_buffer s') = []"
    if nv: "''version'' \<notin> fst ` set attrs"
  proof -
    obtain s' where s': "start_element E element attrs ?s1 = Inl (format_version_error None, s')"
      "m_output_queue s' = m_output_queue ?s1" "m_buffer s' = m_buffer ?s1"
      using start_root_no_version [OF init(3) assms(1) nv init(4)] by blast
    have "run E ?s0 (c # rest) = Thrown (format_version_error None) s' rest"
      by (rule run_throws_at_first_event [OF assms(3) _ init(1)]) (simp add: s'(1))
    with s' init skip show ?thesis by simp
  qed
  from bad missing show ?thesis by blast
qed

theorem root_version_checked_witness:
  "(\<exists>s'. run example_externals (XMLParser_init all_entities)
            [one_chunk [StartElement ''osm'' [(''version'', ''0.5'')], EndElement ''osm''],
             end_of_stream]
          = Thrown (format_version_error (Some ''0.5'')) s' [end_of_stream]
        \<and> m_output_queue s' = [] \<and> m_written (m_buffer s') = [])
   \<and> (\<exists>s'. run example_externals (XMLParser_init all_entities)
            [one_chunk [StartElement ''osmChange'' [(''generator'', ''g'')],
                        EndElement ''osmChange''],
             end_of_stream]
          = Thrown (format_version_error None) s' [end_of_stream]
        \<and> m_output_queue s' = [] \<and> m_written (m_buffer s') = [])"
proof -
  have 1: "\<exists>s'. run example_externals (XMLParser_init all_entities)
            [one_chunk [StartElement ''osm'' [(''version'', ''0.5'')], EndElement ''osm''],
             end_of_stream]
          = Thrown (format_version_error (Some ''0.5'')) s' [end_of_stream]
        \<and> m_output_queue s' = [] \<and> m_written (m_buffer s') = []"
    using root_version_checked
      [where element = "''osm''" and pre = "[]" and attrs = "[(''version'', ''0.5'')]"
         and c = "one_chunk [StartElement ''osm'' [(''version'', ''0.5'')], EndElement ''osm'']"
         and evs = "[EndElement ''osm'']" and n = "''version''" and v = "''0.5''"
         and E = example_externals and read_types = all_entities
         and rest = "[end_of_stream]"]
    by (simp add: one_chunk_def)
  have 2: "\<exists>s'. run example_externals (XMLParser_init all_entities)
            [one_chunk [StartElement ''osmChange'' [(''generator'', ''g'')],
                        EndElement ''osmChange''],
             end_of_stream]
          = Thrown (format_version_error None) s' [end_of_stream]
        \<and> m_output_queue s' = [] \<and> m_written (m_buffer s') = []"
    using root_version_checked
      [where element = "''osmChange''" and pre = "[]" and attrs = "[(''generator'', ''g'')]"
         and c = "one_chunk [StartElement ''osmChange'' [(''generator'', ''g'')],
                             EndElement ''osmChange'']"
         and evs = "[EndElement ''osmChange'']"
         and E = example_externals and read_types = all_entities
         and rest = "[end_of_stream]"]
    by (simp add: one_chunk_def)
  from 1 2 show ?thesis by blast
qed

section \<open>Delete sections and visibility\<close>

lemma init_object_check_visible:
  assumes "\<forall>nv \<in> set attrs. \<forall>object.
             object_visible (object_set_attribute E (fst nv) (snd nv) object) = object_visible object"
  shows "object_visible (snd (snd (check_attributes attrs (init_object_check E) (l, u, object))))
           = object_visible object"
  using assms
  by (induction attrs arbitrary: l u object) (simp_all add: init_object_check_def)

lemma new_object_builder_visible:
  assumes "\<forall>nv \<in> set attrs. \<forall>object.
             object_visible (object_set_attribute E (fst nv) (snd nv) object) = object_visible object"
  shows "object_visible (entity_object (new_object_builder E d t attrs)) = (\<not> d)"
proof -
  obtain l u object where r: "check_attributes attrs (init_object_check E)
     (Location_default, [], if d then (new_object t)\<lparr>object_visible := False\<rparr> else new_object t)
     = (l, u, object)"
    by (metis prod_cases3)
  have "object_visible object = (\<not> d)"
    using init_object_check_visible [OF assms, of Location_default "[]"
            "if d then (new_object t)\<lparr>object_visible := False\<rparr> else new_object t"] r
    by (simp add: new_object_def split: if_splits)
  then show ?thesis
    by (simp add: new_object_builder_def init_object_def r)
qed


lemma start_top_object:
  assumes "m_context s = context_top" "m_tl_builder s = None"
  shows "item_type_node \<in> m_read_types s \<Longrightarrow>
           \<exists>s'. start_element E ''node'' attrs s = Inr s'
              \<and> m_node_builder s'
                   = Some (new_object_builder E (m_in_delete_section s) item_type_node attrs)"
    and "item_type_way \<in> m_read_types s \<Longrightarrow>
           \<exists>s'. start_element E ''way'' attrs s = Inr s'
              \<and> m_way_builder s'
                   = Some (new_object_builder E (m_in_delete_section s) item_type_way attrs)"
    and "item_type_relation \<in> m_read_types s \<Longrightarrow>
           \<exists>s'. start_element E ''relation'' attrs s = Inr s'
              \<and> m_relation_builder s'
                   = Some (new_object_builder E (m_in_delete_section s) item_type_relation attrs)"
    and "item_type_changeset \<in> m_read_types s \<Longrightarrow>
           \<exists>s'. start_element E ''changeset'' attrs s = Inr s'
              \<and> m_changeset_builder s'
                   = Some \<lparr>entity_object = init_changeset E (new_object item_type_changeset) attrs,
                           subitems = []\<rparr>"
  using assms
  by (simp_all add: start_element_def start_top_def header_is_done_def Let_def)

text \<open>
  Claim C1, as amended. In state Top (no tag list left open), whatever the root element
  was: the start tag \<open>delete\<close> sets the in-delete flag; the start tags \<open>create\<close> and
  \<open>modify\<close> leave the state, and so the flag, unchanged; it is the end tag \<open>delete\<close>
  that clears the flag. Every node, way or relation that the entity mask selects and
  whose start tag has no attribute that changes the visible flag is constructed with
  \<open>visible\<close> equal to the negation of the in-delete flag at its start tag: false inside
  a delete section, true elsewhere. A changeset is constructed from its attributes alone,
  without regard to the flag.
\<close>

theorem delete_section_visibility:
  assumes "m_context s = context_top" and "m_tl_builder s = None"
  shows "start_element E ''delete'' attrs s = Inr (s\<lparr>m_in_delete_section := True\<rparr>)
       \<and> start_element E ''create'' attrs s = Inr s
       \<and> start_element E ''modify'' attrs s = Inr s
       \<and> end_element E ''delete'' s = Inr (s\<lparr>m_in_delete_section := False\<rparr>)
       \<and> ((\<forall>nv \<in> set attrs. \<forall>object.
              object_visible (object_set_attribute E (fst nv) (snd nv) object)
                = object_visible object) \<longrightarrow>
            (item_type_node \<in> m_read_types s \<longrightarrow>
               (\<exists>s' e. start_element E ''node'' attrs s = Inr s' \<and> m_node_builder s' = Some e
                   \<and> object_visible (entity_object e) = (\<not> m_in_delete_section s)))
          \<and> (item_type_way \<in> m_read_types s \<longrightarrow>
               (\<exists>s' e. start_element E ''way'' attrs s = Inr s' \<and> m_way_builder s' = Some e
                   \<and> object_visible (entity_object e) = (\<not> m_in_delete_section s)))
          \<and> (item_type_relation \<in> m_read_types s \<longrightarrow>
               (\<exists>s' e. start_element E ''relation'' attrs s = Inr s'
                   \<and> m_relation_builder s' = Some e
                   \<and> object_visible (entity_object e) = (\<not> m_in_delete_section s))))
       \<and> (item_type_changeset \<in> m_read_types s \<longrightarrow>
            (\<exists>s' e. start_element E ''changeset'' attrs s = Inr s'
                \<and> m_changeset_builder s' = Some e
                \<and> entity_object e = init_changeset E (new_object item_type_changeset) attrs))"
proof -
  have tags: "start_element E ''delete'' attrs s = Inr (s\<lparr>m_in_delete_section := True\<rparr>)"
    "start_element E ''create'' attrs s = Inr s"
    "start_element E ''modify'' attrs s = Inr s"
    "end_element E ''delete'' s = Inr (s\<lparr>m_in_delete_section := False\<rparr>)"
    using assms by (simp_all add: start_element_def start_top_def end_element_def)
  note vis = new_object_builder_visible [where E = E and attrs = attrs
               and d = "m_in_delete_section s"]
  show ?thesis
    using tags start_top_object [OF assms, of E attrs] vis by fastforce
qed

text \<open>
  The claim as stated fails: after \<open>delete\<close> a start tag \<open>create\<close> does not clear the
  flag, so that a node started there is constructed invisible; and \<open>delete\<close> sets the
  flag under the root \<open>osm\<close> as well.
\<close>

theorem delete_section_counterexample:
  "thrown (deliver example_externals
             [StartElement ''osmChange'' [(''version'', ''0.6'')],
              StartElement ''delete'' [],
              StartElement ''create'' [],
              StartElement ''node'' [(''id'', ''1'')]]
             (XMLParser_init all_entities)) = None
   \<and> m_in_delete_section
         (final_state (deliver example_externals
             [StartElement ''osmChange'' [(''version'', ''0.6'')],
              StartElement ''delete'' [],
              StartElement ''create'' []]
             (XMLParser_init all_entities)))
   \<and> map_option (\<lambda>e. object_visible (entity_object e))
         (m_node_builder
            (final_state (deliver example_externals
               [StartElement ''osmChange'' [(''version'', ''0.6'')],
                StartElement ''delete'' [],
                StartElement ''create'' [],
                StartElement ''node'' [(''id'', ''1'')]]
               (XMLParser_init all_entities)))) = Some False
   \<and> thrown (deliver example_externals
             [StartElement ''osm'' [(''version'', ''0.6'')], StartElement ''delete'' []]
             (XMLParser_init all_entities)) = None
   \<and> m_in_delete_section
         (final_state (deliver example_externals
             [StartElement ''osm'' [(''version'', ''0.6'')], StartElement ''delete'' []]
             (XMLParser_init all_entities)))
   \<and> m_has_multiple_object_versions
         (m_header (final_state (deliver example_externals
             [StartElement ''osm'' [(''version'', ''0.6'')], StartElement ''delete'' []]
             (XMLParser_init all_entities)))) = False"
  by (simp add: canonical_defs example_externals_def all_entities_def)

theorem delete_section_visibility_witness:
  "\<exists>s s' e. deliver example_externals
               [StartElement ''osmChange'' [(''version'', ''0.6'')], StartElement ''delete'' []]
               (XMLParser_init all_entities) = Inr s
         \<and> m_context s = context_top \<and> m_tl_builder s = None \<and> m_in_delete_section s
         \<and> start_element example_externals ''node'' [(''id'', ''7''), (''version'', ''2'')] s
             = Inr s'
         \<and> m_node_builder s' = Some e \<and> object_visible (entity_object e) = False"
proof -
  obtain s where s: "deliver example_externals
               [StartElement ''osmChange'' [(''version'', ''0.6'')], StartElement ''delete'' []]
               (XMLParser_init all_entities) = Inr s"
    and ctx: "m_context s = context_top" and tl: "m_tl_builder s = None"
    and del: "m_in_delete_section s" and mask: "item_type_node \<in> m_read_types s"
    by (simp add: canonical_defs example_externals_def all_entities_def)
  have keeps: "\<forall>nv \<in> set [(''id'', ''7''), (''version'', ''2'')]. \<forall>object.
      object_visible (object_set_attribute example_externals (fst nv) (snd nv) object)
        = object_visible object"
    by (simp add: example_externals_def)
  from delete_section_visibility
         [OF ctx tl, of example_externals "[(''id'', ''7''), (''version'', ''2'')]"]
       keeps mask del
  obtain s' e where
    "start_element example_externals ''node'' [(''id'', ''7''), (''version'', ''2'')] s = Inr s'"
    "m_node_builder s' = Some e" "object_visible (entity_object e) = False"
    by blast
  with s ctx tl del show ?thesis by blast
qed

section \<open>Unknown elements below an entity\<close>

text \<open>
  Claim C6 (the code departs from it). The document
  \<^verbatim>\<open><osm version="0.6"><node id="1"><foo><bar/></foo><tag k="a" v="b"/></node></osm>\<close>
  has an unknown element with a child below a node. The start tag of the child is
  delivered in state InObject, where the source asserts that it is never reached: with
  assertions enabled the parse stops there. With assertions compiled out, the end tag of
  the child restores state Node, the end tag of the unknown element is then taken for the
  end of the node, the node is committed at that point, and the tag that follows is lost.
\<close>

theorem nested_unknown_element_reaches_in_object:
  "thrown (deliver example_externals
             [StartElement ''osm'' [(''version'', ''0.6'')],
              StartElement ''node'' [(''id'', ''1'')],
              StartElement ''foo'' [],
              StartElement ''bar'' []]
             (XMLParser_init all_entities)) = Some assertion_failed
   \<and> m_context (final_state (deliver example_externals
             [StartElement ''osm'' [(''version'', ''0.6'')],
              StartElement ''node'' [(''id'', ''1'')],
              StartElement ''foo'' [],
              StartElement ''bar'' []]
             (XMLParser_init all_entities))) = context_in_object
   \<and> thrown (deliver (example_externals\<lparr>ndebug := True\<rparr>)
             [StartElement ''osm'' [(''version'', ''0.6'')],
              StartElement ''node'' [(''id'', ''1'')],
              StartElement ''foo'' [],
              StartElement ''bar'' [],
              EndElement ''bar'',
              EndElement ''foo'']
             (XMLParser_init all_entities)) = None
   \<and> m_context (final_state (deliver (example_externals\<lparr>ndebug := True\<rparr>)
             [StartElement ''osm'' [(''version'', ''0.6'')],
              StartElement ''node'' [(''id'', ''1'')],
              StartElement ''foo'' [],
              StartElement ''bar'' [],
              EndElement ''bar'',
              EndElement ''foo'']
             (XMLParser_init all_entities))) = context_top
   \<and> map subitems (m_committed (m_buffer (final_state
           (deliver (example_externals\<lparr>ndebug := True\<rparr>)
             [StartElement ''osm'' [(''version'', ''0.6'')],
              StartElement ''node'' [(''id'', ''1'')],
              StartElement ''foo'' [],
              StartElement ''bar'' [],
              EndElement ''bar'',
              EndElement ''foo'']
             (XMLParser_init all_entities))))) = [[]]
   \<and> thrown (deliver (example_externals\<lparr>ndebug := True\<rparr>)
             [StartElement ''osm'' [(''version'', ''0.6'')],
              StartElement ''node'' [(''id'', ''1'')],
              StartElement ''foo'' [],
              StartElement ''bar'' [],
              EndElement ''bar'',
              EndElement ''foo'',
              StartElement ''tag'' [(''k'', ''a''), (''v'', ''b'')],
              EndElement ''tag'',
              EndElement ''node'',
              EndElement ''osm'']
             (XMLParser_init all_entities)) = None
   \<and> map subitems (m_committed (m_buffer (final_state
           (deliver (example_externals\<lparr>ndebug := True\<rparr>)
             [StartElement ''osm'' [(''version'', ''0.6'')],
              StartElement ''node'' [(''id'', ''1'')],
              StartElement ''foo'' [],
              StartElement ''bar'' [],
              EndElement ''bar'',
              EndElement ''foo'',
              StartElement ''tag'' [(''k'', ''a''), (''v'', ''b'')],
              EndElement ''tag'',
              EndElement ''node'',
              EndElement ''osm'']
             (XMLParser_init all_entities))))) = [[]]"
  by (simp add: canonical_defs example_externals_def all_entities_def)

section \<open>Comment texts\<close>

text \<open>
  Claim C7 (the code departs from it). In the document
  \<^verbatim>\<open><osm version="0.6"><changeset id="1"><discussion><comment uid="5" user="u"><text>a</text></comment><comment uid="6" user="v"><text>b</text></comment></discussion></changeset></osm>\<close>
  no character data lies between the first \<open></text>\<close> and the second \<open><text>\<close>, so
  the scratch string is not cleared in between: the body attached to the second comment
  is \<open>ab\<close>, not the character data \<open>b\<close> of its own \<open>text\<close> element.
\<close>

theorem comment_text_carries_over:
  "thrown (deliver example_externals
          [StartElement ''osm'' [(''version'', ''0.6'')],
           StartElement ''changeset'' [(''id'', ''1'')],
           StartElement ''discussion'' [],
           StartElement ''comment'' [(''uid'', ''5''), (''user'', ''u'')],
           StartElement ''text'' [],
           CharacterData ''a'',
           EndElement ''text'',
           EndElement ''comment'',
           StartElement ''comment'' [(''uid'', ''6''), (''user'', ''v'')],
           StartElement ''text'' [],
           CharacterData ''b'',
           EndElement ''text'',
           EndElement ''comment'',
           EndElement ''discussion'',
           EndElement ''changeset'',
           EndElement ''osm'']
          (XMLParser_init all_entities)) = None
   \<and> map subitems (m_committed (m_buffer (final_state (deliver example_externals
          [StartElement ''osm'' [(''version'', ''0.6'')],
           StartElement ''changeset'' [(''id'', ''1'')],
           StartElement ''discussion'' [],
           StartElement ''comment'' [(''uid'', ''5''), (''user'', ''u'')],
           StartElement ''text'' [],
           CharacterData ''a'',
           EndElement ''text'',
           EndElement ''comment'',
           StartElement ''comment'' [(''uid'', ''6''), (''user'', ''v'')],
           StartElement ''text'' [],
           CharacterData ''b'',
           EndElement ''text'',
           EndElement ''comment'',
           EndElement ''discussion'',
           EndElement ''changeset'',
           EndElement ''osm'']
          (XMLParser_init all_entities)))))
       = [[ChangesetDiscussion
             [\<lparr>comment_date = 0, comment_uid = 5, comment_user = ''u'', comment_body = ''a''\<rparr>,
              \<lparr>comment_date = 0, comment_uid = 6, comment_user = ''v'',
                 comment_body = ''ab''\<rparr>]]]"
  by (simp add: canonical_defs example_externals_def all_entities_def decimal_def)

section \<open>Handing buffers to the output queue\<close>

lemma commit_and_flush_buffer:
  "(if buffer_size div 10 * 9 < Buffer_committed E (Buffer_commit (m_buffer z))
    then m_output_queue (commit_and_flush E z) = m_output_queue z @ [Buffer_commit (m_buffer z)]
       \<and> m_buffer (commit_and_flush E z) = Buffer_new buffer_size
    else m_output_queue (commit_and_flush E z) = m_output_queue z
       \<and> m_buffer (commit_and_flush E z) = Buffer_commit (m_buffer z))
   \<and> m_context (commit_and_flush E z) = context_top"
  by (simp add: commit_and_flush_def flush_buffer_def send_to_output_queue_def)

lemma reset_sub_builders_keep:
  "m_buffer (reset_tl_builder z) = m_buffer z"
  "m_output_queue (reset_tl_builder z) = m_output_queue z"
  "m_buffer (reset_wnl_builder z) = m_buffer z"
  "m_output_queue (reset_wnl_builder z) = m_output_queue z"
  "m_buffer (reset_rml_builder z) = m_buffer z"
  "m_output_queue (reset_rml_builder z) = m_output_queue z"
  "m_buffer (reset_changeset_discussion_builder z) = m_buffer z"
  "m_output_queue (reset_changeset_discussion_builder z) = m_output_queue z"
  by (simp_all add: reset_tl_builder_def reset_wnl_builder_def reset_rml_builder_def
        reset_changeset_discussion_builder_def seal_def
      split: option.splits item_type.splits)

lemma reset_entity_builders_buffer:
  "m_output_queue (reset_node_builder z) = m_output_queue z"
  "m_output_queue (reset_way_builder z) = m_output_queue z"
  "m_output_queue (reset_relation_builder z) = m_output_queue z"
  "m_output_queue (reset_changeset_builder z) = m_output_queue z"
  "m_capacity (m_buffer (reset_node_builder z)) = m_capacity (m_buffer z)"
  "m_capacity (m_buffer (reset_way_builder z)) = m_capacity (m_buffer z)"
  "m_capacity (m_buffer (reset_relation_builder z)) = m_capacity (m_buffer z)"
  "m_capacity (m_buffer (reset_changeset_builder z)) = m_capacity (m_buffer z)"
  "m_written (m_buffer (reset_node_builder z))
     = m_written (m_buffer z) @ (case m_node_builder z of None \<Rightarrow> [] | Some e \<Rightarrow> [e])"
  "m_written (m_buffer (reset_way_builder z))
     = m_written (m_buffer z) @ (case m_way_builder z of None \<Rightarrow> [] | Some e \<Rightarrow> [e])"
  "m_written (m_buffer (reset_relation_builder z))
     = m_written (m_buffer z) @ (case m_relation_builder z of None \<Rightarrow> [] | Some e \<Rightarrow> [e])"
  "m_written (m_buffer (reset_changeset_builder z))
     = m_written (m_buffer z) @ (case m_changeset_builder z of None \<Rightarrow> [] | Some e \<Rightarrow> [e])"
  by (simp_all add: reset_node_builder_def reset_way_builder_def reset_relation_builder_def
        reset_changeset_builder_def Buffer_add_def split: option.splits)

lemma end_entity_is_commit_and_flush:
  assumes "(m_context s, element) \<in> {(context_node, ''node''), (context_way, ''way''),
             (context_relation, ''relation''), (context_changeset, ''changeset'')}"
  shows "\<exists>z. end_element E element s = Inr (commit_and_flush E z)
           \<and> m_output_queue z = m_output_queue s
           \<and> m_capacity (m_buffer z) = m_capacity (m_buffer s)
           \<and> (\<exists>es. m_written (m_buffer z) = m_written (m_buffer s) @ es \<and> length es \<le> 1)"
proof -
  consider "m_context s = context_node" "element = ''node''"
    | "m_context s = context_way" "element = ''way''"
    | "m_context s = context_relation" "element = ''relation''"
    | "m_context s = context_changeset" "element = ''changeset''"
    using assms by auto
  then show ?thesis
  proof cases
    case 1
    then have eq: "end_element E element s = Inr (commit_and_flush E (reset_node_builder (reset_tl_builder s)))"
      by (simp add: end_element_def assert_that_def)
    show ?thesis
      by (rule exI [where x = "reset_node_builder (reset_tl_builder s)"])
         (simp add: eq reset_entity_builders_buffer reset_sub_builders_keep
            split: option.splits)
  next
    case 2
    then have eq: "end_element E element s = Inr (commit_and_flush E (reset_way_builder (reset_wnl_builder (reset_tl_builder s))))"
      by (simp add: end_element_def assert_that_def)
    show ?thesis
      by (rule exI [where x = "reset_way_builder (reset_wnl_builder (reset_tl_builder s))"])
         (simp add: eq reset_entity_builders_buffer reset_sub_builders_keep
            split: option.splits)
  next
    case 3
    then have eq: "end_element E element s = Inr (commit_and_flush E (reset_relation_builder (reset_rml_builder (reset_tl_builder s))))"
      by (simp add: end_element_def assert_that_def)
    show ?thesis
      by (rule exI [where x = "reset_relation_builder (reset_rml_builder (reset_tl_builder s))"])
         (simp add: eq reset_entity_builders_buffer reset_sub_builders_keep
            split: option.splits)
  next
    case 4
    then have eq: "end_element E element s = Inr (commit_and_flush E (reset_changeset_builder
                 (reset_changeset_discussion_builder (reset_tl_builder s))))"
      by (simp add: end_element_def assert_that_def)
    show ?thesis
      by (rule exI [where x = "reset_changeset_builder
                 (reset_changeset_discussion_builder (reset_tl_builder s))"])
         (simp add: eq reset_entity_builders_buffer reset_sub_builders_keep
            split: option.splits)
  qed
qed

lemma run_finish_effect:
  "m_header_is_done (run_finish E s1)
   \<and> m_header_promise (run_finish E s1)
       = (if m_header_is_done s1 then m_header_promise s1
          else m_header_promise s1 @ [m_header s1])
   \<and> m_output_queue (run_finish E s1)
       = (if 0 < Buffer_committed E (m_buffer s1) then m_output_queue s1 @ [m_buffer s1]
          else m_output_queue s1)"
  by (simp add: run_finish_def header_is_done_def send_to_output_queue_def Let_def)

text \<open>
  Claim C8, as amended. At the end tag of a node, way, relation or changeset the finished
  entity is committed (the committed part of the buffer becomes all that was written,
  the capacity is unchanged), and the committed buffer is moved to the output queue and
  replaced by an empty buffer of the fixed capacity \<open>buffer_size\<close> exactly when its
  committed byte count is strictly greater than \<open>buffer_size div 10 * 9\<close>, that is
  1800000 of 2000000 bytes; a buffer holding exactly 90 percent stays. When the main
  loop is left and \<open>run\<close> returns, the header promise has been resolved, by \<open>run\<close>
  itself if it was still pending, and the remaining buffer has been sent if and only if
  its committed byte count is positive.
\<close>

theorem flush_exactly_above_watermark:
  assumes "(m_context s, element) \<in> {(context_node, ''node''), (context_way, ''way''),
             (context_relation, ''relation''), (context_changeset, ''changeset'')}"
  shows "(\<exists>s' b. end_element E element s = Inr s' \<and> m_context s' = context_top
            \<and> m_committed b = m_written b \<and> m_capacity b = m_capacity (m_buffer s)
            \<and> (\<exists>es. m_written b = m_written (m_buffer s) @ es \<and> length es \<le> 1)
            \<and> (if 1800000 < Buffer_committed E b
                then m_output_queue s' = m_output_queue s @ [b]
                   \<and> m_buffer s' = \<lparr>m_capacity = 2000000, m_written = [], m_committed = []\<rparr>
                else m_output_queue s' = m_output_queue s \<and> m_buffer s' = b))
       \<and> buffer_size = 2000000
       \<and> (\<forall>s0 q s2 rest. run E s0 q = Returned s2 rest \<longrightarrow>
            (\<exists>s1. run_loop E s0 q = Returned s1 rest
               \<and> m_header_is_done s2
               \<and> m_header_promise s2
                   = (if m_header_is_done s1 then m_header_promise s1
                      else m_header_promise s1 @ [m_header s1])
               \<and> m_output_queue s2
                   = (if 0 < Buffer_committed E (m_buffer s1)
                      then m_output_queue s1 @ [m_buffer s1] else m_output_queue s1)))"
proof -
  obtain z where z: "end_element E element s = Inr (commit_and_flush E z)"
    "m_output_queue z = m_output_queue s" "m_capacity (m_buffer z) = m_capacity (m_buffer s)"
    "\<exists>es. m_written (m_buffer z) = m_written (m_buffer s) @ es \<and> length es \<le> 1"
    using end_entity_is_commit_and_flush [OF assms] by blast
  let ?b = "Buffer_commit (m_buffer z)"
  have b: "m_committed ?b = m_written ?b" "m_capacity ?b = m_capacity (m_buffer s)"
    "\<exists>es. m_written ?b = m_written (m_buffer s) @ es \<and> length es \<le> 1"
    using z by (simp_all add: Buffer_commit_def)
  have size: "buffer_size div 10 * 9 = 1800000" "buffer_size = 2000000"
    by (simp_all add: buffer_size_def)
  have flush: "if 1800000 < Buffer_committed E ?b
        then m_output_queue (commit_and_flush E z) = m_output_queue s @ [?b]
           \<and> m_buffer (commit_and_flush E z)
               = \<lparr>m_capacity = 2000000, m_written = [], m_committed = []\<rparr>
        else m_output_queue (commit_and_flush E z) = m_output_queue s
           \<and> m_buffer (commit_and_flush E z) = ?b"
    using commit_and_flush_buffer [of E z] z(2) by (simp add: size Buffer_new_def)
  have first: "\<exists>s' b. end_element E element s = Inr s' \<and> m_context s' = context_top
            \<and> m_committed b = m_written b \<and> m_capacity b = m_capacity (m_buffer s)
            \<and> (\<exists>es. m_written b = m_written (m_buffer s) @ es \<and> length es \<le> 1)
            \<and> (if 1800000 < Buffer_committed E b
                then m_output_queue s' = m_output_queue s @ [b]
                   \<and> m_buffer s' = \<lparr>m_capacity = 2000000, m_written = [], m_committed = []\<rparr>
                else m_output_queue s' = m_output_queue s \<and> m_buffer s' = b)"
    using z(1) b flush commit_and_flush_buffer [of E z] by blast
  have last: "\<exists>s1. run_loop E s0 q = Returned s1 rest
               \<and> m_header_is_done s2
               \<and> m_header_promise s2
                   = (if m_header_is_done s1 then m_header_promise s1
                      else m_header_promise s1 @ [m_header s1])
               \<and> m_output_queue s2
                   = (if 0 < Buffer_committed E (m_buffer s1)
                      then m_output_queue s1 @ [m_buffer s1] else m_output_queue s1)"
    if "run E s0 q = Returned s2 rest" for s0 q s2 rest
    using that run_finish_effect [of E]
    by (auto simp: run_def split: outcome.splits)
  from first size(2) last show ?thesis by blast
qed

lemmas run_defs =
  run_def run_finish_def loop_body_def ExpatXMLParser_call_def one_chunk_def end_of_stream_def

theorem flush_exactly_above_watermark_witness:
  "(\<exists>s s' b. deliver (example_externals\<lparr>entity_size := (\<lambda>e. 1800008)\<rparr>)
                [StartElement ''osm'' [(''version'', ''0.6'')],
                 StartElement ''node'' [(''id'', ''1'')]]
                (XMLParser_init all_entities) = Inr s
         \<and> m_context s = context_node
         \<and> end_element (example_externals\<lparr>entity_size := (\<lambda>e. 1800008)\<rparr>) ''node'' s = Inr s'
         \<and> 1800000 < Buffer_committed (example_externals\<lparr>entity_size := (\<lambda>e. 1800008)\<rparr>) b
         \<and> m_output_queue s' = [b]
         \<and> m_buffer s' = \<lparr>m_capacity = 2000000, m_written = [], m_committed = []\<rparr>)
   \<and> (\<exists>s1 s2. run example_externals (XMLParser_init all_entities)
                 [one_chunk [StartElement ''osm'' [(''version'', ''0.6'')],
                             StartElement ''node'' [(''id'', ''1'')],
                             EndElement ''node'',
                             EndElement ''osm''],
                  end_of_stream] = Returned s2 []
         \<and> run_loop example_externals (XMLParser_init all_entities)
                 [one_chunk [StartElement ''osm'' [(''version'', ''0.6'')],
                             StartElement ''node'' [(''id'', ''1'')],
                             EndElement ''node'',
                             EndElement ''osm''],
                  end_of_stream] = Returned s1 []
         \<and> m_header_is_done s2
         \<and> m_output_queue s1 = [] \<and> m_output_queue s2 = [m_buffer s1])"
proof -
  let ?E = "example_externals\<lparr>entity_size := (\<lambda>e. 1800008)\<rparr>"
  let ?pre = "[StartElement ''osm'' [(''version'', ''0.6'')],
              StartElement ''node'' [(''id'', ''1'')]]"
  obtain s where s: "deliver ?E ?pre (XMLParser_init all_entities) = Inr s"
    and ctx: "m_context s = context_node" and q: "m_output_queue s = []"
    by (simp add: canonical_defs example_externals_def all_entities_def)
  obtain s'' where full: "deliver ?E (?pre @ [EndElement ''node''])
                            (XMLParser_init all_entities) = Inr s''"
    and q'': "length (m_output_queue s'') = 1"
    by (simp add: canonical_defs example_externals_def all_entities_def)
  have "deliver ?E (?pre @ [EndElement ''node'']) (XMLParser_init all_entities)
          = deliver ?E [EndElement ''node''] s"
    by (simp only: deliver_append s sum.case)
  also have "\<dots> = end_element ?E ''node'' s"
    by (simp split: sum.splits)
  finally have end1: "end_element ?E ''node'' s = Inr s''"
    using full by simp
  have hyp: "(m_context s, ''node'') \<in> {(context_node, ''node''), (context_way, ''way''),
             (context_relation, ''relation''), (context_changeset, ''changeset'')}"
    using ctx by simp
  from flush_exactly_above_watermark [OF hyp, of ?E]
  obtain s' b where sb: "end_element ?E ''node'' s = Inr s'"
    "if 1800000 < Buffer_committed ?E b
     then m_output_queue s' = m_output_queue s @ [b]
        \<and> m_buffer s' = \<lparr>m_capacity = 2000000, m_written = [], m_committed = []\<rparr>
     else m_output_queue s' = m_output_queue s \<and> m_buffer s' = b"
    by blast
  have "s' = s''" using sb(1) end1 by simp
  with sb(2) q q'' have "1800000 < Buffer_committed ?E b" "m_output_queue s' = [b]"
    "m_buffer s' = \<lparr>m_capacity = 2000000, m_written = [], m_committed = []\<rparr>"
    by (auto split: if_splits)
  with s ctx sb(1) have 1: "\<exists>s s' b. deliver ?E ?pre (XMLParser_init all_entities) = Inr s
         \<and> m_context s = context_node \<and> end_element ?E ''node'' s = Inr s'
         \<and> 1800000 < Buffer_committed ?E b \<and> m_output_queue s' = [b]
         \<and> m_buffer s' = \<lparr>m_capacity = 2000000, m_written = [], m_committed = []\<rparr>"
    by blast
  let ?q = "[one_chunk [StartElement ''osm'' [(''version'', ''0.6'')],
                        StartElement ''node'' [(''id'', ''1'')],
                        EndElement ''node'',
                        EndElement ''osm''],
             end_of_stream]"
  obtain s2 where r: "run example_externals (XMLParser_init all_entities) ?q = Returned s2 []"
    by (simp add: run_defs canonical_defs example_externals_def all_entities_def)
  obtain s1 where l: "run_loop example_externals (XMLParser_init all_entities) ?q
                        = Returned s1 []"
    and q1: "m_output_queue s1 = []"
    and c1: "0 < Buffer_committed example_externals (m_buffer s1)"
    by (simp add: run_defs canonical_defs example_externals_def all_entities_def)
  from flush_exactly_above_watermark [OF hyp, of example_externals] r l
  have "m_header_is_done s2"
    "m_output_queue s2 = (if 0 < Buffer_committed example_externals (m_buffer s1)
                          then m_output_queue s1 @ [m_buffer s1] else m_output_queue s1)"
    by fastforce+
  with r l q1 c1 have 2: "\<exists>s1 s2. run example_externals (XMLParser_init all_entities) ?q
                                    = Returned s2 []
         \<and> run_loop example_externals (XMLParser_init all_entities) ?q = Returned s1 []
         \<and> m_header_is_done s2 \<and> m_output_queue s1 = [] \<and> m_output_queue s2 = [m_buffer s1]"
    by auto
  from 1 2 show ?thesis by blast
qed

text \<open>
  The claim as stated fails at the boundary: a buffer whose committed byte count is
  exactly 90 percent of the capacity is not moved to the output queue.
\<close>

theorem flush_at_watermark_counterexample:
  "thrown (deliver (example_externals\<lparr>entity_size := (\<lambda>e. 1800000)\<rparr>)
          [StartElement ''osm'' [(''version'', ''0.6'')],
           StartElement ''node'' [(''id'', ''1'')],
           EndElement ''node'']
          (XMLParser_init all_entities)) = None
   \<and> Buffer_committed (example_externals\<lparr>entity_size := (\<lambda>e. 1800000)\<rparr>)
         (m_buffer (final_state (deliver (example_externals\<lparr>entity_size := (\<lambda>e. 1800000)\<rparr>)
            [StartElement ''osm'' [(''version'', ''0.6'')],
             StartElement ''node'' [(''id'', ''1'')],
             EndElement ''node'']
            (XMLParser_init all_entities)))) = 1800000
   \<and> m_capacity
         (m_buffer (final_state (deliver (example_externals\<lparr>entity_size := (\<lambda>e. 1800000)\<rparr>)
            [StartElement ''osm'' [(''version'', ''0.6'')],
             StartElement ''node'' [(''id'', ''1'')],
             EndElement ''node'']
            (XMLParser_init all_entities)))) = 2000000
   \<and> m_output_queue
         (final_state (deliver (example_externals\<lparr>entity_size := (\<lambda>e. 1800000)\<rparr>)
            [StartElement ''osm'' [(''version'', ''0.6'')],
             StartElement ''node'' [(''id'', ''1'')],
             EndElement ''node'']
            (XMLParser_init all_entities))) = []"
  by (simp add: canonical_defs example_externals_def all_entities_def)

section \<open>Early exit of the main loop\<close>

lemma loop_body_Continue:
  "loop_body E c s = Continue s' \<Longrightarrow> \<not> (m_read_types s' = {} \<and> m_header_is_done s')"
  by (auto simp: loop_body_def split: sum.splits if_splits)

lemma pull_states_wanted:
  "\<not> (m_read_types s = {} \<and> m_header_is_done s)
   \<Longrightarrow> \<forall>s' \<in> set (pull_states E s q). \<not> (m_read_types s' = {} \<and> m_header_is_done s')"
proof (induction q arbitrary: s)
  case Nil
  then show ?case by simp
next
  case (Cons c cs)
  show ?case
  proof (cases "loop_body E c s")
    case (Continue s')
    with Cons.IH [OF loop_body_Continue [OF Continue]] Cons.prems show ?thesis by simp
  next
    case (Break s')
    with Cons.prems show ?thesis by simp
  next
    case (Throw e s')
    with Cons.prems show ?thesis by simp
  qed
qed

lemma pull_states_count:
  "run_loop E s q = Returned s' rest \<Longrightarrow> length (pull_states E s q) + length rest = length q"
proof (induction q arbitrary: s)
  case Nil
  then show ?case by (simp split: if_splits)
next
  case (Cons c cs)
  show ?case
  proof (cases "m_input_queue_done s")
    case True
    with Cons.prems show ?thesis by auto
  next
    case False
    with Cons.prems Cons.IH show ?thesis
      by (cases "loop_body E c s") auto
  qed
qed

text \<open>
  Claim C9. Started from the constructed parser, the main loop never pops the input
  queue in a state in which the entity mask is empty and the header promise has been
  resolved (the number of pops is the number of chunks taken from the queue). As soon
  as a chunk has been parsed after which the mask is empty and the promise resolved,
  the loop is left: \<open>run\<close> returns, after the final steps, with the rest of the queue
  untouched, and the chunk just parsed was the last one popped.
\<close>

theorem early_exit_without_pull:
  "(\<forall>s \<in> set (pull_states E (XMLParser_init read_types) q).
      \<not> (m_read_types s = {} \<and> m_header_is_done s))
   \<and> (\<forall>s' rest. run_loop E (XMLParser_init read_types) q = Returned s' rest \<longrightarrow>
        length (pull_states E (XMLParser_init read_types) q) + length rest = length q)
   \<and> (\<forall>s c cs s'.
        \<not> m_input_queue_done s
        \<and> ExpatXMLParser_call E c (s\<lparr>m_input_queue_done := (chunk_data c = [])\<rparr>) = Inr s'
        \<and> m_read_types s' = {} \<and> m_header_is_done s'
        \<longrightarrow> run E s (c # cs) = Returned (run_finish E s') cs
          \<and> pull_states E s (c # cs) = [s])"
proof -
  have init: "\<not> (m_read_types (XMLParser_init read_types) = {}
                 \<and> m_header_is_done (XMLParser_init read_types))"
    by (simp add: XMLParser_init_def)
  have break: "run E s (c # cs) = Returned (run_finish E s') cs
          \<and> pull_states E s (c # cs) = [s]"
    if "\<not> m_input_queue_done s"
       "ExpatXMLParser_call E c (s\<lparr>m_input_queue_done := (chunk_data c = [])\<rparr>) = Inr s'"
       "m_read_types s' = {}" "m_header_is_done s'" for s c cs s'
    using that by (simp add: run_def loop_body_def)
  from pull_states_wanted [OF init] pull_states_count break show ?thesis by blast
qed

theorem early_exit_without_pull_witness:
  "\<exists>s'. run example_externals (XMLParser_init {})
           [one_chunk [StartElement ''osm'' [(''version'', ''0.6'')],
                       StartElement ''node'' [(''id'', ''1'')]],
            one_chunk [EndElement ''node'', EndElement ''osm''],
            end_of_stream]
         = Returned s' [one_chunk [EndElement ''node'', EndElement ''osm''], end_of_stream]
      \<and> pull_states example_externals (XMLParser_init {})
           [one_chunk [StartElement ''osm'' [(''version'', ''0.6'')],
                       StartElement ''node'' [(''id'', ''1'')]],
            one_chunk [EndElement ''node'', EndElement ''osm''],
            end_of_stream]
         = [XMLParser_init {}]
      \<and> m_read_types s' = {} \<and> m_header_is_done s' \<and> m_output_queue s' = []"
proof -
  let ?c = "one_chunk [StartElement ''osm'' [(''version'', ''0.6'')],
                       StartElement ''node'' [(''id'', ''1'')]]"
  let ?cs = "[one_chunk [EndElement ''node'', EndElement ''osm''], end_of_stream]"
  let ?s = "XMLParser_init {}"
  obtain s' where call: "ExpatXMLParser_call example_externals ?c
                    (?s\<lparr>m_input_queue_done := (chunk_data ?c = [])\<rparr>) = Inr s'"
    and mask: "m_read_types s' = {}" and resolved: "m_header_is_done s'"
    and out: "m_output_queue (run_finish example_externals s') = []"
    by (simp add: run_defs canonical_defs example_externals_def)
  have pending: "\<not> m_input_queue_done ?s"
    by (simp add: XMLParser_init_def)
  from early_exit_without_pull [of example_externals "{}" "?c # ?cs"] pending call mask resolved
  have "run example_externals ?s (?c # ?cs) = Returned (run_finish example_externals s') ?cs"
    "pull_states example_externals ?s (?c # ?cs) = [?s]"
    by blast+
  moreover have "m_read_types (run_finish example_externals s') = {}"
    "m_header_is_done (run_finish example_externals s')"
    using mask resolved by (simp_all add: run_finish_def header_is_done_def send_to_output_queue_def)
  ultimately show ?thesis using out by blast
qed

section \<open>Sub-list builders\<close>

lemma add_item_None [simp]: "(add_item it b = None) = (b = None)"
  by (simp add: add_item_def)

lemma seal_fields [simp]:
  "m_context (seal p it z) = m_context z"
  "m_last_context (seal p it z) = m_last_context z"
  "m_tl_builder (seal p it z) = m_tl_builder z"
  "m_wnl_builder (seal p it z) = m_wnl_builder z"
  "m_rml_builder (seal p it z) = m_rml_builder z"
  "m_changeset_discussion_builder (seal p it z) = m_changeset_discussion_builder z"
  "(m_node_builder (seal p it z) = None) = (m_node_builder z = None)"
  "(m_way_builder (seal p it z) = None) = (m_way_builder z = None)"
  "(m_relation_builder (seal p it z) = None) = (m_relation_builder z = None)"
  "(m_changeset_builder (seal p it z) = None) = (m_changeset_builder z = None)"
  "m_header (seal p it z) = m_header z"
  "m_header_promise (seal p it z) = m_header_promise z"
  "m_header_is_done (seal p it z) = m_header_is_done z"
  "m_buffer (seal p it z) = m_buffer z"
  "m_output_queue (seal p it z) = m_output_queue z"
  "m_read_types (seal p it z) = m_read_types z"
  by (cases p; simp add: seal_def)+

lemma builders_inv_alive: "builders_inv s \<Longrightarrow> alive_sub_builders s \<le> 1"
  by (cases "builder_kind (effective_context s)")
     (auto simp: builders_inv_def builders_ok_def alive_sub_builders_def)

lemma builders_inv_init: "builders_inv (XMLParser_init read_types)"
  by (simp add: builders_inv_def builders_ok_def XMLParser_init_def effective_context_def)

lemma builders_inv_characters: "builders_inv s \<Longrightarrow> builders_inv (characters chars s)"
  by (auto simp: builders_inv_def builders_ok_def characters_def effective_context_def)

lemmas inv_defs = builders_inv_def builders_ok_def effective_context_def

lemma start_root_cases:
  assumes "start_root element attrs s = Inr s' \<or> start_root element attrs s = Inl (e, s')"
  shows "\<exists>h c. s' = s\<lparr>m_header := h, m_context := c\<rparr> \<and> (c = m_context s \<or> c = context_top)"
proof (cases "element = ''osm'' \<or> element = ''osmChange''")
  case False
  with assms have "s' = s" by (simp add: start_root_def)
  then have "s' = s\<lparr>m_header := m_header s, m_context := m_context s\<rparr>" by simp
  then show ?thesis by blast
next
  case True
  define h0 where "h0 = (if element = ''osmChange''
     then (m_header s)\<lparr>m_has_multiple_object_versions := True\<rparr> else m_header s)"
  have s1: "(if element = ''osmChange''
                   then s\<lparr>m_header := (m_header s)\<lparr>m_has_multiple_object_versions := True\<rparr>\<rparr>
                   else s) = s\<lparr>m_header := h0\<rparr>"
    by (simp add: h0_def)
  show ?thesis
  proof (cases "root_check attrs h0")
    case (Inl x)
    with assms True have "s' = s\<lparr>m_header := snd x, m_context := m_context s\<rparr>"
      by (cases x) (auto simp: start_root_def s1 Let_def)
    then show ?thesis by blast
  next
    case (Inr h)
    with assms True have "s' = s\<lparr>m_header := h, m_context := m_context s\<rparr>
        \<or> s' = s\<lparr>m_header := h, m_context := context_top\<rparr>"
      by (auto simp: start_root_def s1 Let_def split: if_splits)
    then show ?thesis by blast
  qed
qed

lemma inv_start_root:
  assumes "m_context s = context_root" "builders_inv s"
    and "start_element E element attrs s = Inr s' \<or> start_element E element attrs s = Inl (e, s')"
  shows "builders_inv s'"
proof -
  from assms(1,3) have "start_root element attrs s = Inr s' \<or> start_root element attrs s = Inl (e, s')"
    by (simp add: start_element_def)
  from start_root_cases [OF this] obtain h c where
    "s' = s\<lparr>m_header := h, m_context := c\<rparr>" "c = m_context s \<or> c = context_top"
    by blast
  with assms(1,2) show ?thesis by (auto simp: inv_defs)
qed

lemma inv_start_top:
  "m_context s = context_top \<Longrightarrow> builders_inv s \<Longrightarrow>
   (case start_element E element attrs s of Inl x \<Rightarrow> builders_inv (snd x) | Inr s' \<Rightarrow> builders_inv s')"
  by (auto simp: start_element_def start_top_def inv_defs Let_def header_is_done_def
        reset_node_builder_def reset_way_builder_def
        reset_relation_builder_def reset_changeset_builder_def split: prod.splits)

lemma inv_start_node:
  "m_context s = context_node \<Longrightarrow> builders_inv s \<Longrightarrow>
   (case start_element E element attrs s of Inl x \<Rightarrow> builders_inv (snd x) | Inr s' \<Rightarrow> builders_inv s')"
  by (auto simp: start_element_def start_node_def inv_defs Let_def get_tag_def)

lemma inv_start_way:
  "m_context s = context_way \<Longrightarrow> builders_inv s \<Longrightarrow>
   (case start_element E element attrs s of Inl x \<Rightarrow> builders_inv (snd x) | Inr s' \<Rightarrow> builders_inv s')"
  by (auto simp: start_element_def start_way_def inv_defs Let_def get_tag_def
        reset_tl_builder_def reset_wnl_builder_def split: option.splits)

lemma inv_start_relation:
  "m_context s = context_relation \<Longrightarrow> builders_inv s \<Longrightarrow>
   (case start_element E element attrs s of Inl x \<Rightarrow> builders_inv (snd x) | Inr s' \<Rightarrow> builders_inv s')"
  by (auto simp: start_element_def start_relation_def inv_defs Let_def get_tag_def
        reset_tl_builder_def reset_rml_builder_def split: option.splits prod.splits)

lemma inv_start_changeset:
  "m_context s = context_changeset \<Longrightarrow> builders_inv s \<Longrightarrow>
   (case start_element E element attrs s of Inl x \<Rightarrow> builders_inv (snd x) | Inr s' \<Rightarrow> builders_inv s')"
  by (auto simp: start_element_def start_changeset_def inv_defs Let_def get_tag_def
        reset_tl_builder_def reset_changeset_discussion_builder_def split: option.splits)

lemma inv_start_discussion:
  "m_context s = context_discussion \<Longrightarrow> builders_inv s \<Longrightarrow>
   (case start_element E element attrs s of Inl x \<Rightarrow> builders_inv (snd x) | Inr s' \<Rightarrow> builders_inv s')"
  by (auto simp: start_element_def start_discussion_def inv_defs Let_def split: option.splits)

lemma inv_start_other:
  assumes "m_context s \<in> {context_comment, context_comment_text, context_ignored_node,
      context_ignored_way, context_ignored_relation, context_ignored_changeset,
      context_in_object}" "builders_inv s"
  shows "case start_element E element attrs s of Inl x \<Rightarrow> builders_inv (snd x)
         | Inr s' \<Rightarrow> builders_inv s'"
  using assms by (cases "m_context s") (auto simp: start_element_def inv_defs)

lemma inv_start_element:
  assumes "builders_inv s"
    and "start_element E element attrs s = Inr s' \<or> start_element E element attrs s = Inl (e, s')"
  shows "builders_inv s'"
proof (cases "m_context s")
  case context_root
  from inv_start_root [OF this assms] show ?thesis .
next
  case context_top
  from inv_start_top [OF this assms(1), where E = E and element = element and attrs = attrs] assms(2) show ?thesis by auto
next
  case context_node
  from inv_start_node [OF this assms(1), where E = E and element = element and attrs = attrs] assms(2) show ?thesis by auto
next
  case context_way
  from inv_start_way [OF this assms(1), where E = E and element = element and attrs = attrs] assms(2) show ?thesis by auto
next
  case context_relation
  from inv_start_relation [OF this assms(1), where E = E and element = element and attrs = attrs] assms(2) show ?thesis by auto
next
  case context_changeset
  from inv_start_changeset [OF this assms(1), where E = E and element = element and attrs = attrs] assms(2) show ?thesis by auto
next
  case context_discussion
  from inv_start_discussion [OF this assms(1), where E = E and element = element and attrs = attrs] assms(2) show ?thesis by auto
next
  case context_comment
  then have "m_context s \<in> {context_comment, context_comment_text, context_ignored_node,
      context_ignored_way, context_ignored_relation, context_ignored_changeset,
      context_in_object}" by simp
  from inv_start_other [OF this assms(1), where E = E and element = element and attrs = attrs] assms(2) show ?thesis by auto
next
  case context_comment_text
  then have "m_context s \<in> {context_comment, context_comment_text, context_ignored_node,
      context_ignored_way, context_ignored_relation, context_ignored_changeset,
      context_in_object}" by simp
  from inv_start_other [OF this assms(1), where E = E and element = element and attrs = attrs] assms(2) show ?thesis by auto
next
  case context_ignored_node
  then have "m_context s \<in> {context_comment, context_comment_text, context_ignored_node,
      context_ignored_way, context_ignored_relation, context_ignored_changeset,
      context_in_object}" by simp
  from inv_start_other [OF this assms(1), where E = E and element = element and attrs = attrs] assms(2) show ?thesis by auto
next
  case context_ignored_way
  then have "m_context s \<in> {context_comment, context_comment_text, context_ignored_node,
      context_ignored_way, context_ignored_relation, context_ignored_changeset,
      context_in_object}" by simp
  from inv_start_other [OF this assms(1), where E = E and element = element and attrs = attrs] assms(2) show ?thesis by auto
next
  case context_ignored_relation
  then have "m_context s \<in> {context_comment, context_comment_text, context_ignored_node,
      context_ignored_way, context_ignored_relation, context_ignored_changeset,
      context_in_object}" by simp
  from inv_start_other [OF this assms(1), where E = E and element = element and attrs = attrs] assms(2) show ?thesis by auto
next
  case context_ignored_changeset
  then have "m_context s \<in> {context_comment, context_comment_text, context_ignored_node,
      context_ignored_way, context_ignored_relation, context_ignored_changeset,
      context_in_object}" by simp
  from inv_start_other [OF this assms(1), where E = E and element = element and attrs = attrs] assms(2) show ?thesis by auto
next
  case context_in_object
  then have "m_context s \<in> {context_comment, context_comment_text, context_ignored_node,
      context_ignored_way, context_ignored_relation, context_ignored_changeset,
      context_in_object}" by simp
  from inv_start_other [OF this assms(1), where E = E and element = element and attrs = attrs] assms(2) show ?thesis by auto
qed

lemma flush_buffer_fields [simp]:
  "m_context (flush_buffer E z) = m_context z"
  "m_last_context (flush_buffer E z) = m_last_context z"
  "m_tl_builder (flush_buffer E z) = m_tl_builder z"
  "m_wnl_builder (flush_buffer E z) = m_wnl_builder z"
  "m_rml_builder (flush_buffer E z) = m_rml_builder z"
  "m_changeset_discussion_builder (flush_buffer E z) = m_changeset_discussion_builder z"
  "m_node_builder (flush_buffer E z) = m_node_builder z"
  "m_way_builder (flush_buffer E z) = m_way_builder z"
  "m_relation_builder (flush_buffer E z) = m_relation_builder z"
  "m_changeset_builder (flush_buffer E z) = m_changeset_builder z"
  "m_header (flush_buffer E z) = m_header z"
  "m_header_promise (flush_buffer E z) = m_header_promise z"
  "m_header_is_done (flush_buffer E z) = m_header_is_done z"
  "m_read_types (flush_buffer E z) = m_read_types z"
  by (simp_all add: flush_buffer_def send_to_output_queue_def)

lemma inv_end_node:
  "m_context s = context_node \<Longrightarrow> builders_inv s \<Longrightarrow>
   (case end_element E element s of Inl x \<Rightarrow> builders_inv (snd x) | Inr s' \<Rightarrow> builders_inv s')"
  by (auto simp: end_element_def assert_that_def commit_and_flush_def inv_defs
        reset_node_builder_def reset_tl_builder_def split: option.splits)

lemma inv_end_way:
  "m_context s = context_way \<Longrightarrow> builders_inv s \<Longrightarrow>
   (case end_element E element s of Inl x \<Rightarrow> builders_inv (snd x) | Inr s' \<Rightarrow> builders_inv s')"
  by (auto simp: end_element_def assert_that_def commit_and_flush_def inv_defs
        reset_way_builder_def reset_tl_builder_def reset_wnl_builder_def split: option.splits)

lemma inv_end_relation:
  "m_context s = context_relation \<Longrightarrow> builders_inv s \<Longrightarrow>
   (case end_element E element s of Inl x \<Rightarrow> builders_inv (snd x) | Inr s' \<Rightarrow> builders_inv s')"
  by (auto simp: end_element_def assert_that_def commit_and_flush_def inv_defs
        reset_relation_builder_def reset_tl_builder_def reset_rml_builder_def
      split: option.splits)

lemma inv_end_changeset:
  "m_context s = context_changeset \<Longrightarrow> builders_inv s \<Longrightarrow>
   (case end_element E element s of Inl x \<Rightarrow> builders_inv (snd x) | Inr s' \<Rightarrow> builders_inv s')"
  by (auto simp: end_element_def assert_that_def commit_and_flush_def inv_defs
        reset_changeset_builder_def reset_tl_builder_def
        reset_changeset_discussion_builder_def
      split: option.splits)

lemma inv_end_in_object:
  "m_context s = context_in_object \<Longrightarrow> builders_inv s \<Longrightarrow>
   (case end_element E element s of Inl x \<Rightarrow> builders_inv (snd x) | Inr s' \<Rightarrow> builders_inv s')"
  by (simp add: end_element_def inv_defs)

lemma inv_end_other:
  assumes "m_context s \<in> {context_root, context_top, context_discussion, context_comment,
      context_comment_text, context_ignored_node,
      context_ignored_way, context_ignored_relation, context_ignored_changeset}"
      "builders_inv s"
  shows "case end_element E element s of Inl x \<Rightarrow> builders_inv (snd x)
         | Inr s' \<Rightarrow> builders_inv s'"
  using assms
  by (cases "m_context s")
     (auto simp: end_element_def assert_that_def header_is_done_def inv_defs Let_def
        split: option.splits)

lemma inv_end_element:
  assumes "builders_inv s"
    and "end_element E element s = Inr s' \<or> end_element E element s = Inl (e, s')"
  shows "builders_inv s'"
proof (cases "m_context s")
  case context_node
  from inv_end_node [OF this assms(1), where E = E and element = element] assms(2)
  show ?thesis by auto
next
  case context_way
  from inv_end_way [OF this assms(1), where E = E and element = element] assms(2)
  show ?thesis by auto
next
  case context_relation
  from inv_end_relation [OF this assms(1), where E = E and element = element] assms(2)
  show ?thesis by auto
next
  case context_changeset
  from inv_end_changeset [OF this assms(1), where E = E and element = element] assms(2)
  show ?thesis by auto
next
  case context_in_object
  from inv_end_in_object [OF this assms(1), where E = E and element = element] assms(2)
  show ?thesis by auto
next
  case context_root
  then have "m_context s \<in> {context_root, context_top, context_discussion, context_comment,
      context_comment_text, context_ignored_node,
      context_ignored_way, context_ignored_relation, context_ignored_changeset}" by simp
  from inv_end_other [OF this assms(1), where E = E and element = element] assms(2)
  show ?thesis by auto
next
  case context_top
  then have "m_context s \<in> {context_root, context_top, context_discussion, context_comment,
      context_comment_text, context_ignored_node,
      context_ignored_way, context_ignored_relation, context_ignored_changeset}" by simp
  from inv_end_other [OF this assms(1), where E = E and element = element] assms(2)
  show ?thesis by auto
next
  case context_discussion
  then have "m_context s \<in> {context_root, context_top, context_discussion, context_comment,
      context_comment_text, context_ignored_node,
      context_ignored_way, context_ignored_relation, context_ignored_changeset}" by simp
  from inv_end_other [OF this assms(1), where E = E and element = element] assms(2)
  show ?thesis by auto
next
  case context_comment
  then have "m_context s \<in> {context_root, context_top, context_discussion, context_comment,
      context_comment_text, context_ignored_node,
      context_ignored_way, context_ignored_relation, context_ignored_changeset}" by simp
  from inv_end_other [OF this assms(1), where E = E and element = element] assms(2)
  show ?thesis by auto
next
  case context_comment_text
  then have "m_context s \<in> {context_root, context_top, context_discussion, context_comment,
      context_comment_text, context_ignored_node,
      context_ignored_way, context_ignored_relation, context_ignored_changeset}" by simp
  from inv_end_other [OF this assms(1), where E = E and element = element] assms(2)
  show ?thesis by auto
next
  case context_ignored_node
  then have "m_context s \<in> {context_root, context_top, context_discussion, context_comment,
      context_comment_text, context_ignored_node,
      context_ignored_way, context_ignored_relation, context_ignored_changeset}" by simp
  from inv_end_other [OF this assms(1), where E = E and element = element] assms(2)
  show ?thesis by auto
next
  case context_ignored_way
  then have "m_context s \<in> {context_root, context_top, context_discussion, context_comment,
      context_comment_text, context_ignored_node,
      context_ignored_way, context_ignored_relation, context_ignored_changeset}" by simp
  from inv_end_other [OF this assms(1), where E = E and element = element] assms(2)
  show ?thesis by auto
next
  case context_ignored_relation
  then have "m_context s \<in> {context_root, context_top, context_discussion, context_comment,
      context_comment_text, context_ignored_node,
      context_ignored_way, context_ignored_relation, context_ignored_changeset}" by simp
  from inv_end_other [OF this assms(1), where E = E and element = element] assms(2)
  show ?thesis by auto
next
  case context_ignored_changeset
  then have "m_context s \<in> {context_root, context_top, context_discussion, context_comment,
      context_comment_text, context_ignored_node,
      context_ignored_way, context_ignored_relation, context_ignored_changeset}" by simp
  from inv_end_other [OF this assms(1), where E = E and element = element] assms(2)
  show ?thesis by auto
qed

lemma inv_handle_event:
  assumes "builders_inv s"
    and "handle_event E ev s = Inr s' \<or> handle_event E ev s = Inl (e, s')"
  shows "builders_inv s'"
proof (cases ev)
  case (StartElement element attrs)
  with assms inv_start_element [where s = s and E = E and element = element and attrs = attrs and s' = s' and e = e] show ?thesis by simp
next
  case (EndElement element)
  with assms inv_end_element [where s = s and E = E and element = element and s' = s' and e = e] show ?thesis by simp
next
  case (CharacterData chars)
  with assms builders_inv_characters [of s chars] show ?thesis by auto
qed

lemma inv_deliver:
  assumes "builders_inv s"
    and "deliver E evs s = Inr s' \<or> deliver E evs s = Inl (e, s')"
  shows "builders_inv s'"
  using assms
proof (induction evs arbitrary: s)
  case Nil
  then show ?case by simp
next
  case (Cons ev evs)
  show ?case
  proof (cases "handle_event E ev s")
    case (Inl x)
    with Cons.prems inv_handle_event [where s = s and E = E and ev = ev and e = "fst x" and s' = "snd x"] show ?thesis
      by (cases x) auto
  next
    case (Inr s1)
    with Cons.prems(1) inv_handle_event [where s = s and E = E and ev = ev and s' = s1] have "builders_inv s1" by simp
    from Cons.IH [OF this] Cons.prems(2) Inr show ?thesis by simp
  qed
qed

lemma kept_simps [simp]:
  "kept b b" "kept b (add_item it b)" "kept b None" "kept None b'"
  by (simp_all add: kept_def add_item_def split: option.splits)

lemma seal_entity:
  "m_node_builder (seal p it z)
     = (if p = item_type_node then add_item it (m_node_builder z) else m_node_builder z)"
  "m_way_builder (seal p it z)
     = (if p = item_type_way then add_item it (m_way_builder z) else m_way_builder z)"
  "m_relation_builder (seal p it z)
     = (if p = item_type_relation then add_item it (m_relation_builder z)
        else m_relation_builder z)"
  "m_changeset_builder (seal p it z)
     = (if p = item_type_changeset then add_item it (m_changeset_builder z)
        else m_changeset_builder z)"
  by (cases p; simp add: seal_def)+

lemma kept_start:
  assumes "builders_inv s" "start_element E element attrs s = Inr s'"
  shows "sealed_lists_kept s s'"
proof (cases "m_context s")
  case context_root
  with assms(2) start_root_cases [of element attrs s s'] show ?thesis
    by (auto simp: start_element_def sealed_lists_kept_def)
next
  case context_top
  with assms show ?thesis
    by (auto simp: start_element_def start_top_def inv_defs Let_def header_is_done_def
        sealed_lists_kept_def reset_node_builder_def reset_way_builder_def
        reset_relation_builder_def reset_changeset_builder_def split: prod.splits if_splits)
next
  case context_node
  with assms show ?thesis
    by (auto simp: start_element_def start_node_def Let_def get_tag_def sealed_lists_kept_def
          split: if_splits)
next
  case context_way
  with assms(2) show ?thesis
    by (auto simp: start_element_def start_way_def Let_def get_tag_def sealed_lists_kept_def
          reset_tl_builder_def reset_wnl_builder_def seal_entity
          split: if_splits option.splits)
next
  case context_relation
  with assms(2) show ?thesis
    by (auto simp: start_element_def start_relation_def Let_def get_tag_def
          sealed_lists_kept_def reset_tl_builder_def reset_rml_builder_def seal_entity
          split: if_splits option.splits prod.splits)
next
  case context_changeset
  with assms(2) show ?thesis
    by (auto simp: start_element_def start_changeset_def Let_def get_tag_def
          sealed_lists_kept_def reset_tl_builder_def reset_changeset_discussion_builder_def
          seal_entity
          split: if_splits option.splits)
next
  case context_discussion
  with assms(2) show ?thesis
    by (auto simp: start_element_def start_discussion_def Let_def sealed_lists_kept_def
          split: if_splits option.splits)
qed (use assms(2) in \<open>auto simp: start_element_def sealed_lists_kept_def split: if_splits\<close>)

lemma kept_end:
  assumes "end_element E element s = Inr s'"
  shows "sealed_lists_kept s s'"
proof (cases "m_context s")
  case context_node
  with assms show ?thesis
    by (auto simp: end_element_def assert_that_def commit_and_flush_def sealed_lists_kept_def
          reset_node_builder_def reset_tl_builder_def seal_entity
          split: if_splits option.splits)
next
  case context_way
  with assms show ?thesis
    by (auto simp: end_element_def assert_that_def commit_and_flush_def sealed_lists_kept_def
          reset_way_builder_def reset_tl_builder_def reset_wnl_builder_def seal_entity
          split: if_splits option.splits)
next
  case context_relation
  with assms show ?thesis
    by (auto simp: end_element_def assert_that_def commit_and_flush_def sealed_lists_kept_def
          reset_relation_builder_def reset_tl_builder_def reset_rml_builder_def seal_entity
          split: if_splits option.splits)
next
  case context_changeset
  with assms show ?thesis
    by (auto simp: end_element_def assert_that_def commit_and_flush_def sealed_lists_kept_def
          reset_changeset_builder_def reset_tl_builder_def
          reset_changeset_discussion_builder_def seal_entity
          split: if_splits option.splits)
qed (use assms in \<open>auto simp: end_element_def assert_that_def header_is_done_def Let_def
       sealed_lists_kept_def split: if_splits option.splits\<close>)

text \<open>
  Claim C5, as amended. In every state the parser reaches from its construction, also
  the state at a throw, at most one of the four sub-list builders (tag list, way node
  list, relation member list, discussion) is alive: the machine destroys the builder of
  one list before it creates the builder of another. A list that has been sealed into
  the entity under construction is never reopened: every callback leaves the lists
  already sealed in place, in their order, and at most appends to them. The code does
  not keep each kind of list to one occurrence per entity: when children of different
  kinds interleave (tag, nd, tag), the later children go to a new list of the same kind
  behind the sealed one.
\<close>

theorem one_sub_list_builder_alive:
  "(deliver E evs (XMLParser_init read_types) = Inl (e, s) \<longrightarrow> alive_sub_builders s \<le> 1)
   \<and> (deliver E evs (XMLParser_init read_types) = Inr s \<longrightarrow>
        alive_sub_builders s \<le> 1
        \<and> (\<forall>ev s'. handle_event E ev s = Inr s' \<longrightarrow> sealed_lists_kept s s'))"
proof -
  have inv: "builders_inv s"
    if "deliver E evs (XMLParser_init read_types) = Inr s
        \<or> deliver E evs (XMLParser_init read_types) = Inl (e, s)"
    using inv_deliver [OF builders_inv_init that] .
  have step: "sealed_lists_kept s s'"
    if "builders_inv s" "handle_event E ev s = Inr s'" for ev s'
  proof (cases ev)
    case (StartElement element attrs)
    with that kept_start [of s E element attrs s'] show ?thesis by simp
  next
    case (EndElement element)
    with that kept_end [of E element s s'] show ?thesis by simp
  next
    case (CharacterData chars)
    with that show ?thesis by (auto simp: characters_def sealed_lists_kept_def)
  qed
  from inv step builders_inv_alive show ?thesis by blast
qed

text \<open>
  The claim as stated fails: the way below ends up with two tag lists, one before and
  one behind its node list.
\<close>

theorem interleaved_children_counterexample:
  "thrown (deliver example_externals
          [StartElement ''osm'' [(''version'', ''0.6'')],
           StartElement ''way'' [(''id'', ''1'')],
           StartElement ''tag'' [(''k'', ''highway''), (''v'', ''road'')],
           EndElement ''tag'',
           StartElement ''nd'' [(''ref'', ''10'')],
           EndElement ''nd'',
           StartElement ''tag'' [(''k'', ''name''), (''v'', ''x'')],
           EndElement ''tag'',
           EndElement ''way'']
          (XMLParser_init all_entities)) = None
   \<and> map subitems (m_committed (m_buffer (final_state (deliver example_externals
          [StartElement ''osm'' [(''version'', ''0.6'')],
           StartElement ''way'' [(''id'', ''1'')],
           StartElement ''tag'' [(''k'', ''highway''), (''v'', ''road'')],
           EndElement ''tag'',
           StartElement ''nd'' [(''ref'', ''10'')],
           EndElement ''nd'',
           StartElement ''tag'' [(''k'', ''name''), (''v'', ''x'')],
           EndElement ''tag'',
           EndElement ''way'']
          (XMLParser_init all_entities)))))
       = [[TagList [(''highway'', ''road'')],
           WayNodeList [\<lparr>m_ref = 10, m_location = Location_default\<rparr>],
           TagList [(''name'', ''x'')]]]"
  by (simp add: canonical_defs example_externals_def all_entities_def decimal_def)

theorem one_sub_list_builder_alive_witness:
  "\<exists>s s'. deliver example_externals
            [StartElement ''osm'' [(''version'', ''0.6'')],
             StartElement ''way'' [(''id'', ''1'')],
             StartElement ''tag'' [(''k'', ''highway''), (''v'', ''road'')],
             EndElement ''tag'']
            (XMLParser_init all_entities) = Inr s
      \<and> m_tl_builder s \<noteq> None \<and> alive_sub_builders s \<le> 1
      \<and> handle_event example_externals (StartElement ''nd'' [(''ref'', ''10'')]) s = Inr s'
      \<and> m_tl_builder s' = None \<and> m_wnl_builder s' \<noteq> None \<and> sealed_lists_kept s s'"
proof -
  let ?E = example_externals
  let ?pre = "[StartElement ''osm'' [(''version'', ''0.6'')],
               StartElement ''way'' [(''id'', ''1'')],
               StartElement ''tag'' [(''k'', ''highway''), (''v'', ''road'')],
               EndElement ''tag'']"
  let ?ev = "StartElement ''nd'' [(''ref'', ''10'')]"
  obtain s where s: "deliver ?E ?pre (XMLParser_init all_entities) = Inr s"
    and tl: "m_tl_builder s \<noteq> None"
    by (simp add: canonical_defs example_externals_def all_entities_def)
  obtain s' where full: "deliver ?E (?pre @ [?ev]) (XMLParser_init all_entities) = Inr s'"
    and after: "m_tl_builder s' = None" "m_wnl_builder s' \<noteq> None"
    by (simp add: canonical_defs example_externals_def all_entities_def)
  have "deliver ?E (?pre @ [?ev]) (XMLParser_init all_entities) = deliver ?E [?ev] s"
    by (simp only: deliver_append s sum.case)
  also have "\<dots> = handle_event ?E ?ev s"
    by (simp split: sum.splits)
  finally have ev: "handle_event ?E ?ev s = Inr s'"
    using full by simp
  from one_sub_list_builder_alive [of ?E ?pre all_entities _ s] s ev
  have "alive_sub_builders s \<le> 1" "sealed_lists_kept s s'"
    by blast+
  with s tl ev after show ?thesis by blast
qed

section \<open>The header promise\<close>

lemma root_check_flag:
  "(root_check attrs h = Inr h' \<or> root_check attrs h = Inl (e, h'))
   \<Longrightarrow> m_has_multiple_object_versions h' = m_has_multiple_object_versions h"
  by (induction attrs arbitrary: h) (auto simp: Header_set_def split: if_splits)

lemma start_root_effect:
  assumes "start_root element attrs s = Inr s'"
  shows "(element = ''osm'' \<or> element = ''osmChange'') \<and> m_context s' = context_top
       \<and> m_header_promise s' = m_header_promise s \<and> m_header_is_done s' = m_header_is_done s
       \<and> m_has_multiple_object_versions (m_header s')
           = (m_has_multiple_object_versions (m_header s) \<or> element = ''osmChange'')"
proof -
  have el: "element = ''osm'' \<or> element = ''osmChange''"
    using assms by (auto simp: start_root_def split: if_splits)
  define h0 where "h0 = (if element = ''osmChange''
     then (m_header s)\<lparr>m_has_multiple_object_versions := True\<rparr> else m_header s)"
  have s1: "(if element = ''osmChange''
                   then s\<lparr>m_header := (m_header s)\<lparr>m_has_multiple_object_versions := True\<rparr>\<rparr>
                   else s) = s\<lparr>m_header := h0\<rparr>"
    by (simp add: h0_def)
  from assms el obtain h where h: "root_check attrs h0 = Inr h"
    and s': "s' = s\<lparr>m_header := h, m_context := context_top\<rparr>"
    by (cases "root_check attrs h0")
       (auto simp: start_root_def s1 Let_def split: if_splits prod.splits)
  have "m_has_multiple_object_versions h = m_has_multiple_object_versions h0"
    using root_check_flag [of attrs h0 h] h by simp
  with el s' show ?thesis by (auto simp: h0_def)
qed

lemma promise_root:
  assumes "m_context s = context_root" "handle_event E ev s = Inr s'"
  shows "m_header_promise s' = m_header_promise s \<and> m_header_is_done s' = m_header_is_done s
       \<and> (case first_start [ev] of
            None \<Rightarrow> m_context s' = context_root \<and> m_header s' = m_header s
          | Some n \<Rightarrow> m_context s' = context_top
              \<and> m_has_multiple_object_versions (m_header s')
                  = (m_has_multiple_object_versions (m_header s) \<or> n = ''osmChange''))"
proof (cases ev)
  case (StartElement element attrs)
  with assms start_root_effect [of element attrs s s'] show ?thesis
    by (simp add: start_element_def)
next
  case (EndElement element)
  with assms show ?thesis
    by (auto simp: end_element_def assert_that_def split: if_splits)
next
  case (CharacterData chars)
  with assms show ?thesis by (auto simp: characters_def)
qed

lemma promise_top:
  assumes "m_context s = context_top" "handle_event E ev s = Inr s'"
  shows "if resolves ev
         then m_header_is_done s'
            \<and> m_header_promise s'
                = (if m_header_is_done s then m_header_promise s
                   else m_header_promise s @ [m_header s])
         else m_context s' = context_top \<and> m_header_promise s' = m_header_promise s
            \<and> m_header_is_done s' = m_header_is_done s
            \<and> m_has_multiple_object_versions (m_header s')
                = m_has_multiple_object_versions (m_header s)"
proof (cases ev)
  case (StartElement element attrs)
  with assms show ?thesis
    by (auto simp: start_element_def start_top_def header_is_done_def Let_def
          reset_node_builder_def reset_way_builder_def reset_relation_builder_def
          reset_changeset_builder_def Header_add_box_def
        split: if_splits prod.splits)
next
  case (EndElement element)
  with assms show ?thesis
    by (auto simp: end_element_def header_is_done_def split: if_splits)
next
  case (CharacterData chars)
  with assms show ?thesis by (auto simp: characters_def)
qed

lemma promise_elsewhere_start:
  assumes "m_context s \<noteq> context_root" "m_context s \<noteq> context_top"
    and "start_element E element attrs s = Inr s'"
  shows "m_header_promise s' = m_header_promise s \<and> m_header_is_done s' = m_header_is_done s"
proof (cases "m_context s")
  case context_node
  with assms(3) show ?thesis
    by (auto simp: start_element_def start_node_def Let_def get_tag_def split: if_splits)
next
  case context_way
  with assms(3) show ?thesis
    by (auto simp: start_element_def start_way_def Let_def get_tag_def
          reset_tl_builder_def reset_wnl_builder_def split: if_splits option.splits)
next
  case context_relation
  with assms(3) show ?thesis
    by (auto simp: start_element_def start_relation_def Let_def get_tag_def
          reset_tl_builder_def reset_rml_builder_def
        split: if_splits option.splits prod.splits)
next
  case context_changeset
  with assms(3) show ?thesis
    by (auto simp: start_element_def start_changeset_def Let_def get_tag_def
          reset_tl_builder_def reset_changeset_discussion_builder_def
        split: if_splits option.splits)
next
  case context_discussion
  with assms(3) show ?thesis
    by (auto simp: start_element_def start_discussion_def Let_def
        split: if_splits option.splits)
qed (use assms in \<open>auto simp: start_element_def split: if_splits\<close>)

lemma promise_elsewhere_end:
  assumes "m_context s \<noteq> context_root" "m_context s \<noteq> context_top"
    and "end_element E element s = Inr s'"
  shows "m_header_promise s' = m_header_promise s \<and> m_header_is_done s' = m_header_is_done s"
proof (cases "m_context s")
  case context_node
  with assms(3) show ?thesis
    by (auto simp: end_element_def assert_that_def commit_and_flush_def
          reset_node_builder_def reset_tl_builder_def split: if_splits option.splits)
next
  case context_way
  with assms(3) show ?thesis
    by (auto simp: end_element_def assert_that_def commit_and_flush_def
          reset_way_builder_def reset_tl_builder_def reset_wnl_builder_def
        split: if_splits option.splits)
next
  case context_relation
  with assms(3) show ?thesis
    by (auto simp: end_element_def assert_that_def commit_and_flush_def
          reset_relation_builder_def reset_tl_builder_def reset_rml_builder_def
        split: if_splits option.splits)
next
  case context_changeset
  with assms(3) show ?thesis
    by (auto simp: end_element_def assert_that_def commit_and_flush_def
          reset_changeset_builder_def reset_tl_builder_def
          reset_changeset_discussion_builder_def
        split: if_splits option.splits)
qed (use assms in \<open>auto simp: end_element_def assert_that_def Let_def
       split: if_splits option.splits\<close>)

lemma promise_elsewhere:
  assumes "m_context s \<noteq> context_root" "m_context s \<noteq> context_top"
    and "handle_event E ev s = Inr s'"
  shows "m_header_promise s' = m_header_promise s \<and> m_header_is_done s' = m_header_is_done s"
proof (cases ev)
  case (StartElement element attrs)
  with assms promise_elsewhere_start [of s E element attrs s'] show ?thesis by simp
next
  case (EndElement element)
  with assms promise_elsewhere_end [of s E element s'] show ?thesis by simp
next
  case (CharacterData chars)
  with assms show ?thesis by (auto simp: characters_def split: if_splits)
qed

lemma promise_thrown_start:
  assumes "start_element E element attrs s = Inl (e, s')"
  shows "m_header_promise s' = m_header_promise s \<and> m_header_is_done s' = m_header_is_done s"
proof (cases "m_context s")
  case context_root
  with assms start_root_cases [of element attrs s s' e] show ?thesis
    by (auto simp: start_element_def)
next
  case context_top
  with assms show ?thesis
    by (auto simp: start_element_def start_top_def Let_def split: if_splits prod.splits)
next
  case context_node
  with assms show ?thesis
    by (auto simp: start_element_def start_node_def Let_def split: if_splits)
next
  case context_way
  with assms show ?thesis
    by (auto simp: start_element_def start_way_def Let_def split: if_splits)
next
  case context_relation
  with assms show ?thesis
    by (auto simp: start_element_def start_relation_def Let_def
          reset_tl_builder_def split: if_splits option.splits prod.splits)
next
  case context_changeset
  with assms show ?thesis
    by (auto simp: start_element_def start_changeset_def Let_def split: if_splits)
next
  case context_discussion
  with assms show ?thesis
    by (auto simp: start_element_def start_discussion_def Let_def
        split: if_splits option.splits)
qed (use assms in \<open>auto simp: start_element_def split: if_splits\<close>)

lemma promise_thrown:
  assumes "handle_event E ev s = Inl (e, s')"
  shows "m_header_promise s' = m_header_promise s \<and> m_header_is_done s' = m_header_is_done s"
proof (cases ev)
  case (StartElement element attrs)
  with assms promise_thrown_start [of E element attrs s e s'] show ?thesis by simp
next
  case (EndElement element)
  with assms show ?thesis
    by (cases "m_context s")
       (auto simp: end_element_def assert_that_def Let_def split: if_splits option.splits)
next
  case (CharacterData chars)
  with assms show ?thesis by simp
qed

lemma header_inv_length: "header_inv r s \<Longrightarrow> length (m_header_promise s) \<le> 1"
  by (cases r) (auto simp: header_inv_def split: if_splits dest: arg_cong [where f = length])

lemma header_inv_step:
  assumes "header_inv r s" "handle_event E ev s = Inr s'"
  shows "header_inv (or_else r (first_start [ev])) s'"
proof (cases r)
  case None
  with assms(1) have root: "m_context s = context_root" and pending: "\<not> m_header_is_done s"
    "m_header_promise s = []" "\<not> m_has_multiple_object_versions (m_header s)"
    by (simp_all add: header_inv_def)
  from promise_root [OF root assms(2)] pending None show ?thesis
    by (cases "first_start [ev]") (auto simp: header_inv_def or_else_def)
next
  case (Some n)
  show ?thesis
  proof (cases "m_header_is_done s")
    case True
    have "m_header_promise s' = m_header_promise s \<and> m_header_is_done s'"
    proof (cases "m_context s = context_root")
      case True
      from promise_root [OF this assms(2)] \<open>m_header_is_done s\<close> show ?thesis by simp
    next
      case False
      show ?thesis
      proof (cases "m_context s = context_top")
        case True
        from promise_top [OF this assms(2)] \<open>m_header_is_done s\<close> show ?thesis
          by (auto split: if_splits)
      next
        case False
        from promise_elsewhere [OF \<open>m_context s \<noteq> context_root\<close> this assms(2)]
          \<open>m_header_is_done s\<close> show ?thesis by simp
      qed
    qed
    with assms(1) Some True show ?thesis
      by (simp add: header_inv_def or_else_def)
  next
    case False
    with assms(1) Some have top: "m_context s = context_top" and empty: "m_header_promise s = []"
      and flag: "m_has_multiple_object_versions (m_header s) = (n = ''osmChange'')"
      by (simp_all add: header_inv_def)
    from promise_top [OF top assms(2)] False empty flag Some show ?thesis
      by (auto simp: header_inv_def or_else_def split: if_splits)
  qed
qed

lemma first_start_append:
  "first_start (evs1 @ evs2) = or_else (first_start evs1) (first_start evs2)"
  by (induction evs1 rule: first_start.induct) (simp_all add: or_else_def)

lemma or_else_assoc: "or_else (or_else r x) y = or_else r (or_else x y)"
  by (cases r) (simp_all add: or_else_def)

lemma header_inv_deliver:
  assumes "header_inv r s"
  shows "deliver E evs s = Inr s' \<Longrightarrow> header_inv (or_else r (first_start evs)) s'"
    and "deliver E evs s = Inl (e, s') \<Longrightarrow> length (m_header_promise s') \<le> 1"
  using assms
proof (induction evs arbitrary: r s)
  case Nil
  {
    case 1
    then show ?case by (cases r) (simp_all add: or_else_def)
  next
    case 2
    then show ?case by simp
  }
next
  case (Cons ev evs)
  {
    case 1
    then obtain s1 where s1: "handle_event E ev s = Inr s1" and rest: "deliver E evs s1 = Inr s'"
      by (auto split: sum.splits)
    from header_inv_step [OF "1.prems"(2) s1]
    have "header_inv (or_else r (first_start [ev])) s1" .
    from Cons.IH(1) [OF rest this]
    have "header_inv (or_else (or_else r (first_start [ev])) (first_start evs)) s'" .
    moreover have "first_start (ev # evs) = or_else (first_start [ev]) (first_start evs)"
      using first_start_append [of "[ev]" evs] by simp
    ultimately show ?case by (simp add: or_else_assoc)
  next
    case 2
    show ?case
    proof (cases "handle_event E ev s")
      case (Inl x)
      with "2.prems"(1) have "handle_event E ev s = Inl (e, s')" by simp
      from promise_thrown [OF this] header_inv_length [OF "2.prems"(2)] show ?thesis by simp
    next
      case (Inr s1)
      with "2.prems"(1) have rest: "deliver E evs s1 = Inl (e, s')" by simp
      from header_inv_step [OF "2.prems"(2) Inr]
      have "header_inv (or_else r (first_start [ev])) s1" .
      from Cons.IH(2) [OF rest this] show ?thesis .
    qed
  }
qed

lemma header_inv_queue_done [simp]:
  "header_inv r (s\<lparr>m_input_queue_done := b\<rparr>) = header_inv r s"
  by (cases r) (simp_all add: header_inv_def)

lemma header_inv_loop_body:
  assumes "header_inv r s"
  shows "loop_body E c s = Continue s' \<or> loop_body E c s = Break s'
         \<Longrightarrow> header_inv (or_else r (first_start (chunk_events c))) s'"
    and "loop_body E c s = Throw e s' \<Longrightarrow> length (m_header_promise s') \<le> 1"
proof -
  let ?s = "s\<lparr>m_input_queue_done := (chunk_data c = [])\<rparr>"
  have inv: "header_inv r ?s" using assms by simp
  show "header_inv (or_else r (first_start (chunk_events c))) s'"
    if "loop_body E c s = Continue s' \<or> loop_body E c s = Break s'"
  proof -
    from that have "deliver E (chunk_events c) ?s = Inr s'"
      by (auto simp: loop_body_def ExpatXMLParser_call_def split: sum.splits if_splits)
    from header_inv_deliver(1) [OF inv this] show ?thesis .
  qed
  show "length (m_header_promise s') \<le> 1" if "loop_body E c s = Throw e s'"
  proof (cases "deliver E (chunk_events c) ?s")
    case (Inl x)
    with that have "deliver E (chunk_events c) ?s = Inl (e, s')"
      by (cases x) (auto simp: loop_body_def ExpatXMLParser_call_def split: if_splits)
    from header_inv_deliver(2) [OF inv this] show ?thesis .
  next
    case (Inr s1)
    with that have "s1 = s'"
      by (auto simp: loop_body_def ExpatXMLParser_call_def split: if_splits)
    with header_inv_deliver(1) [OF inv Inr] header_inv_length show ?thesis by blast
  qed
qed

lemma header_inv_run_loop:
  assumes "header_inv r s"
  shows "(run_loop E s q = Returned s' rest \<longrightarrow>
            (\<exists>consumed. q = consumed @ rest
               \<and> header_inv (or_else r (first_start (events_of consumed))) s'))
       \<and> (run_loop E s q = Thrown e s' rest \<longrightarrow> length (m_header_promise s') \<le> 1)
       \<and> (run_loop E s q = Blocked s' \<longrightarrow> length (m_header_promise s') \<le> 1)"
  using assms
proof (induction q arbitrary: r s)
  case Nil
  have "header_inv (or_else r (first_start (events_of []))) s"
    using Nil by (cases r) (simp_all add: or_else_def events_of_def)
  with Nil header_inv_length [OF Nil] show ?case by (auto split: if_splits)
next
  case (Cons c cs)
  show ?case
  proof (cases "m_input_queue_done s")
    case True
    have "header_inv (or_else r (first_start (events_of []))) s"
      using Cons.prems by (cases r) (simp_all add: or_else_def events_of_def)
    with True show ?thesis by auto
  next
    case False
    show ?thesis
    proof (cases "loop_body E c s")
      case (Continue s1)
      from header_inv_loop_body(1) [OF Cons.prems, of E c s1] Continue
      have inv1: "header_inv (or_else r (first_start (chunk_events c))) s1" by simp
      have "\<exists>consumed. c # cs = consumed @ rest
               \<and> header_inv (or_else r (first_start (events_of consumed))) s'"
        if "run_loop E s1 cs = Returned s' rest"
      proof -
        from Cons.IH [OF inv1] that obtain consumed where
          c: "cs = consumed @ rest"
          "header_inv (or_else (or_else r (first_start (chunk_events c)))
                         (first_start (events_of consumed))) s'"
          by blast
        have "events_of (c # consumed) = chunk_events c @ events_of consumed"
          by (simp add: events_of_def)
        with c(2) have "header_inv (or_else r (first_start (events_of (c # consumed)))) s'"
          by (simp add: first_start_append or_else_assoc)
        with c(1) show ?thesis by (intro exI [of _ "c # consumed"]) simp
      qed
      with Cons.IH [OF inv1] False Continue show ?thesis by simp
    next
      case (Break s1)
      from header_inv_loop_body(1) [OF Cons.prems, of E c s1] Break
      have "header_inv (or_else r (first_start (chunk_events c))) s1" by simp
      then have "header_inv (or_else r (first_start (events_of [c]))) s1"
        by (simp add: events_of_def)
      then have "\<exists>consumed. c # cs = consumed @ cs
               \<and> header_inv (or_else r (first_start (events_of consumed))) s1"
        by (intro exI [of _ "[c]"]) simp
      with False Break show ?thesis by auto
    next
      case (Throw e1 s1)
      from header_inv_loop_body(2) [OF Cons.prems Throw] False Throw show ?thesis by auto
    qed
  qed
qed

lemma header_inv_init: "header_inv None (XMLParser_init read_types)"
  by (simp add: header_inv_def XMLParser_init_def Header_default_def)

lemma promise_effect:
  assumes "handle_event E ev s = Inr s'"
  shows "m_header_promise s'
           = (if m_context s = context_top \<and> resolves ev \<and> \<not> m_header_is_done s
              then m_header_promise s @ [m_header s] else m_header_promise s)"
proof (cases "m_context s = context_root")
  case True
  from promise_root [OF this assms] True show ?thesis by simp
next
  case False
  show ?thesis
  proof (cases "m_context s = context_top")
    case True
    from promise_top [OF this assms] True show ?thesis by (auto split: if_splits)
  next
    case False
    from promise_elsewhere [OF \<open>m_context s \<noteq> context_root\<close> this assms] False
    show ?thesis by simp
  qed
qed

lemma header_inv_promise: "header_inv r s \<Longrightarrow> promise_inv (or_else r x) s"
  by (cases r) (auto simp: header_inv_def promise_inv_def or_else_def)

lemma header_inv_promise_same: "header_inv r s \<Longrightarrow> promise_inv r s"
  by (cases r) (auto simp: header_inv_def promise_inv_def)

lemma promise_inv_deliver:
  assumes "header_inv r s" and "deliver E evs s = Inl (e, s')"
  shows "promise_inv (or_else r (first_start evs)) s'"
  using assms
proof (induction evs arbitrary: r s)
  case Nil
  then show ?case by simp
next
  case (Cons ev evs)
  show ?case
  proof (cases "handle_event E ev s")
    case (Inl x)
    with Cons.prems(2) have "handle_event E ev s = Inl (e, s')" by simp
    from promise_thrown [OF this] header_inv_promise [OF Cons.prems(1), of "first_start (ev # evs)"]
    show ?thesis by (simp add: promise_inv_def)
  next
    case (Inr s1)
    with Cons.prems(2) have rest: "deliver E evs s1 = Inl (e, s')" by simp
    from header_inv_step [OF Cons.prems(1) Inr]
    have "header_inv (or_else r (first_start [ev])) s1" .
    from Cons.IH [OF this rest]
    have "promise_inv (or_else (or_else r (first_start [ev])) (first_start evs)) s'" .
    moreover have "first_start (ev # evs) = or_else (first_start [ev]) (first_start evs)"
      using first_start_append [of "[ev]" evs] by simp
    ultimately show ?thesis by (simp add: or_else_assoc)
  qed
qed

lemma promise_inv_loop_body:
  assumes "header_inv r s" and "loop_body E c s = Throw e s'"
  shows "promise_inv (or_else r (first_start (chunk_events c))) s'"
proof -
  let ?s = "s\<lparr>m_input_queue_done := (chunk_data c = [])\<rparr>"
  have inv: "header_inv r ?s" using assms(1) by simp
  show ?thesis
  proof (cases "deliver E (chunk_events c) ?s")
    case (Inl x)
    with assms(2) have "deliver E (chunk_events c) ?s = Inl (e, s')"
      by (cases x) (auto simp: loop_body_def ExpatXMLParser_call_def split: if_splits)
    from promise_inv_deliver [OF inv this] show ?thesis .
  next
    case (Inr s1)
    with assms(2) have "s1 = s'"
      by (auto simp: loop_body_def ExpatXMLParser_call_def split: if_splits)
    with header_inv_deliver(1) [OF inv Inr] header_inv_promise_same show ?thesis by blast
  qed
qed

lemma promise_inv_run_loop:
  assumes "header_inv r s" and "run_loop E s q = Thrown e s' rest"
  shows "\<exists>consumed. q = consumed @ rest
           \<and> promise_inv (or_else r (first_start (events_of consumed))) s'"
  using assms
proof (induction q arbitrary: r s)
  case Nil
  then show ?case by (simp split: if_splits)
next
  case (Cons c cs)
  from Cons.prems(2) have running: "\<not> m_input_queue_done s"
    by (auto split: if_splits)
  show ?case
  proof (cases "loop_body E c s")
    case (Continue s1)
    from header_inv_loop_body(1) [OF Cons.prems(1), of E c s1] Continue
    have inv1: "header_inv (or_else r (first_start (chunk_events c))) s1" by simp
    from Cons.prems(2) running Continue have "run_loop E s1 cs = Thrown e s' rest" by simp
    from Cons.IH [OF inv1 this] obtain consumed where
      c: "cs = consumed @ rest"
      "promise_inv (or_else (or_else r (first_start (chunk_events c)))
                      (first_start (events_of consumed))) s'"
      by blast
    have "events_of (c # consumed) = chunk_events c @ events_of consumed"
      by (simp add: events_of_def)
    with c(2) have "promise_inv (or_else r (first_start (events_of (c # consumed)))) s'"
      by (simp add: first_start_append or_else_assoc)
    with c(1) show ?thesis by (intro exI [of _ "c # consumed"]) simp
  next
    case (Break s1)
    with Cons.prems(2) running show ?thesis by simp
  next
    case (Throw e1 s1)
    with Cons.prems(2) running have eq: "e1 = e" "s1 = s'" "cs = rest" by simp_all
    from promise_inv_loop_body [OF Cons.prems(1), of E c e1 s1] Throw eq
    have "promise_inv (or_else r (first_start (chunk_events c))) s'" by simp
    then have "promise_inv (or_else r (first_start (events_of [c]))) s'"
      by (simp add: events_of_def)
    with eq show ?thesis by (intro exI [of _ "[c]"]) simp
  qed
qed

lemma queue_done_fields [simp]:
  "m_input_queue_done (seal p it z) = m_input_queue_done z"
  "m_input_queue_done (flush_buffer E z) = m_input_queue_done z"
  "m_input_queue_done (header_is_done z) = m_input_queue_done z"
  by (cases p; simp add: seal_def flush_buffer_def send_to_output_queue_def header_is_done_def)+

lemma queue_done_start:
  assumes "start_element E element attrs s = Inr s'"
  shows "m_input_queue_done s' = m_input_queue_done s"
proof (cases "m_context s")
  case context_root
  with assms start_root_cases [of element attrs s s'] show ?thesis
    by (auto simp: start_element_def)
next
  case context_top
  with assms show ?thesis
    by (auto simp: start_element_def start_top_def Let_def
          reset_node_builder_def reset_way_builder_def reset_relation_builder_def
          reset_changeset_builder_def
        split: if_splits prod.splits)
next
  case context_node
  with assms show ?thesis
    by (auto simp: start_element_def start_node_def Let_def get_tag_def split: if_splits)
next
  case context_way
  with assms show ?thesis
    by (auto simp: start_element_def start_way_def Let_def get_tag_def
          reset_tl_builder_def reset_wnl_builder_def split: if_splits option.splits)
next
  case context_relation
  with assms show ?thesis
    by (auto simp: start_element_def start_relation_def Let_def get_tag_def
          reset_tl_builder_def reset_rml_builder_def
        split: if_splits option.splits prod.splits)
next
  case context_changeset
  with assms show ?thesis
    by (auto simp: start_element_def start_changeset_def Let_def get_tag_def
          reset_tl_builder_def reset_changeset_discussion_builder_def
        split: if_splits option.splits)
next
  case context_discussion
  with assms show ?thesis
    by (auto simp: start_element_def start_discussion_def Let_def
        split: if_splits option.splits)
qed (use assms in \<open>auto simp: start_element_def split: if_splits\<close>)

lemma queue_done_end:
  assumes "end_element E element s = Inr s'"
  shows "m_input_queue_done s' = m_input_queue_done s"
proof (cases "m_context s")
  case context_node
  with assms show ?thesis
    by (auto simp: end_element_def assert_that_def commit_and_flush_def
          reset_node_builder_def reset_tl_builder_def split: if_splits option.splits)
next
  case context_way
  with assms show ?thesis
    by (auto simp: end_element_def assert_that_def commit_and_flush_def
          reset_way_builder_def reset_tl_builder_def reset_wnl_builder_def
        split: if_splits option.splits)
next
  case context_relation
  with assms show ?thesis
    by (auto simp: end_element_def assert_that_def commit_and_flush_def
          reset_relation_builder_def reset_tl_builder_def reset_rml_builder_def
        split: if_splits option.splits)
next
  case context_changeset
  with assms show ?thesis
    by (auto simp: end_element_def assert_that_def commit_and_flush_def
          reset_changeset_builder_def reset_tl_builder_def
          reset_changeset_discussion_builder_def
        split: if_splits option.splits)
qed (use assms in \<open>auto simp: end_element_def assert_that_def Let_def
       split: if_splits option.splits\<close>)

lemma queue_done_deliver:
  "deliver E evs s = Inr s' \<Longrightarrow> m_input_queue_done s' = m_input_queue_done s"
proof (induction evs arbitrary: s)
  case Nil
  then show ?case by simp
next
  case (Cons ev evs)
  then obtain s1 where s1: "handle_event E ev s = Inr s1" and rest: "deliver E evs s1 = Inr s'"
    by (auto split: sum.splits)
  have "m_input_queue_done s1 = m_input_queue_done s"
  proof (cases ev)
    case (StartElement element attrs)
    with s1 queue_done_start [of E element attrs s s1] show ?thesis by simp
  next
    case (EndElement element)
    with s1 queue_done_end [of E element s s1] show ?thesis by simp
  next
    case (CharacterData chars)
    with s1 show ?thesis by (auto simp: characters_def split: if_splits)
  qed
  with Cons.IH [OF rest] show ?case by simp
qed

lemma loop_body_queue_done:
  assumes "loop_body E c s = Continue s'"
  shows "m_input_queue_done s' = (chunk_data c = [])"
proof -
  from assms have "deliver E (chunk_events c) (s\<lparr>m_input_queue_done := (chunk_data c = [])\<rparr>)
      = Inr s'"
    by (auto simp: loop_body_def ExpatXMLParser_call_def split: sum.splits if_splits)
  from queue_done_deliver [OF this] show ?thesis by simp
qed

lemma run_loop_ends:
  assumes "\<exists>c \<in> set q. chunk_data c = []"
  shows "run_loop E s q \<noteq> Blocked s'"
  using assms
proof (induction q arbitrary: s)
  case Nil
  then show ?case by simp
next
  case (Cons c cs)
  show ?case
  proof (cases "m_input_queue_done s")
    case True
    then show ?thesis by simp
  next
    case False
    show ?thesis
    proof (cases "loop_body E c s")
      case (Continue s1)
      show ?thesis
      proof (cases "chunk_data c = []")
        case True
        with loop_body_queue_done [OF Continue] have "m_input_queue_done s1" by simp
        then have "run_loop E s1 cs \<noteq> Blocked s'" by (cases cs) simp_all
        with False Continue show ?thesis by simp
      next
        case nonempty: False
        with Cons.prems have "\<exists>c \<in> set cs. chunk_data c = []" by simp
        from Cons.IH [OF this, of s1] False Continue show ?thesis by simp
      qed
    next
      case (Break s1)
      with False show ?thesis by simp
    next
      case (Throw e s1)
      with False show ?thesis by simp
    qed
  qed
qed

text \<open>
  Claim C4, as amended. Over every run of the parser task that ends, by returning or by
  a throw, the header promise is resolved exactly once, and the task ends whenever the
  input queue holds the empty chunk that ends the stream. On a run that returns the promise
  is resolved with the header, and the multiple-object-versions flag of that header is true
  if and only if the root element, the first element reported among the chunks the run
  consumed, was \<open>osmChange\<close>. On a run that throws, the promise is resolved with such a
  header if a callback had resolved it before the throw, and with the error thrown if it
  was still pending. While the run is blocked on the input queue the promise has been
  resolved at most once. A callback resolves the promise, with the header as it is then,
  exactly when the promise is pending, the state is Top and the event is the start tag of
  a node, way, relation or changeset or the end tag of the root element (\<open>osm\<close> or
  \<open>osmChange\<close>); no other callback touches the promise. After the main loop \<open>run\<close>
  resolves the promise if it is still pending. A resolution attempt on a resolved promise
  changes nothing.
\<close>

theorem header_promise_resolved_once:
  "(\<forall>t. Parser_call E (XMLParser_init read_types) q = Some t \<longrightarrow>
       length (header_resolutions t) = 1)
   \<and> ((\<exists>c \<in> set q. chunk_data c = []) \<longrightarrow> Parser_call E (XMLParser_init read_types) q \<noteq> None)
   \<and> (\<forall>s rest. run E (XMLParser_init read_types) q = Returned s rest \<longrightarrow>
        (\<exists>consumed h. q = consumed @ rest \<and> m_header_promise s = [h]
           \<and> m_has_multiple_object_versions h
               = (first_start (events_of consumed) = Some ''osmChange'')
           \<and> map_option header_resolutions (Parser_call E (XMLParser_init read_types) q)
               = Some [Inr h]))
   \<and> (\<forall>e s rest. run E (XMLParser_init read_types) q = Thrown e s rest \<longrightarrow>
        (\<exists>consumed. q = consumed @ rest
           \<and> (if m_header_is_done s
               then \<exists>h. m_header_promise s = [h]
                      \<and> m_has_multiple_object_versions h
                          = (first_start (events_of consumed) = Some ''osmChange'')
                      \<and> map_option header_resolutions
                            (Parser_call E (XMLParser_init read_types) q) = Some [Inr h]
               else m_header_promise s = []
                      \<and> map_option header_resolutions
                            (Parser_call E (XMLParser_init read_types) q) = Some [Inl e])))
   \<and> (\<forall>s. run E (XMLParser_init read_types) q = Blocked s \<longrightarrow>
        length (m_header_promise s) \<le> 1)
   \<and> (\<forall>s ev s'. handle_event E ev s = Inr s' \<longrightarrow>
        m_header_promise s'
          = (if m_context s = context_top \<and> resolves ev \<and> \<not> m_header_is_done s
             then m_header_promise s @ [m_header s] else m_header_promise s))
   \<and> (\<forall>s. m_header_promise (run_finish E s)
             = (if m_header_is_done s then m_header_promise s
                else m_header_promise s @ [m_header s]))
   \<and> (\<forall>s. m_header_is_done s \<longrightarrow> header_is_done s = s)"
proof -
  let ?s0 = "XMLParser_init read_types"
  note loop = header_inv_run_loop [OF header_inv_init [of read_types], where E = E and q = q]
  have returned: "\<exists>consumed h. q = consumed @ rest \<and> m_header_promise s = [h]
         \<and> m_has_multiple_object_versions h
             = (first_start (events_of consumed) = Some ''osmChange'')
         \<and> map_option header_resolutions (Parser_call E ?s0 q) = Some [Inr h]"
    if "run E ?s0 q = Returned s rest" for s rest
  proof -
    from that obtain s1 where s1: "run_loop E ?s0 q = Returned s1 rest"
      and s: "s = run_finish E s1"
      by (auto simp: run_def split: outcome.splits)
    from loop [where s' = s1 and rest = rest] s1 obtain consumed where
      c: "q = consumed @ rest"
      "header_inv (or_else None (first_start (events_of consumed))) s1"
      by blast
    let ?r = "first_start (events_of consumed)"
    have inv: "header_inv ?r s1" using c(2) by (simp add: or_else_def)
    have promise: "m_header_promise s
        = (if m_header_is_done s1 then m_header_promise s1 else [m_header s1])"
      "\<not> m_header_is_done s1 \<Longrightarrow> m_header_promise s1 = []"
      using inv s
      by (cases ?r; auto simp: run_finish_def header_is_done_def send_to_output_queue_def
            Let_def header_inv_def split: if_splits)+
    have "\<exists>h. m_header_promise s = [h]
         \<and> m_has_multiple_object_versions h = (?r = Some ''osmChange'')"
      using inv promise
      by (cases ?r; cases "m_header_is_done s1") (auto simp: header_inv_def)
    then obtain h where h: "m_header_promise s = [h]"
      "m_has_multiple_object_versions h = (?r = Some ''osmChange'')"
      by blast
    from that h(1) have "map_option header_resolutions (Parser_call E ?s0 q) = Some [Inr h]"
      by (simp add: Parser_call_def)
    with c(1) h show ?thesis by blast
  qed
  have thrown: "\<exists>consumed. q = consumed @ rest
           \<and> (if m_header_is_done s
               then \<exists>h. m_header_promise s = [h]
                      \<and> m_has_multiple_object_versions h
                          = (first_start (events_of consumed) = Some ''osmChange'')
                      \<and> map_option header_resolutions (Parser_call E ?s0 q) = Some [Inr h]
               else m_header_promise s = []
                      \<and> map_option header_resolutions (Parser_call E ?s0 q) = Some [Inl e])"
    if "run E ?s0 q = Thrown e s rest" for e s rest
  proof -
    from that have "run_loop E ?s0 q = Thrown e s rest"
      by (auto simp: run_def split: outcome.splits)
    from promise_inv_run_loop [OF header_inv_init this] obtain consumed where
      c: "q = consumed @ rest"
      "promise_inv (or_else None (first_start (events_of consumed))) s"
      by blast
    let ?r = "first_start (events_of consumed)"
    have inv: "promise_inv ?r s" using c(2) by (simp add: or_else_def)
    have "if m_header_is_done s
               then \<exists>h. m_header_promise s = [h]
                      \<and> m_has_multiple_object_versions h = (?r = Some ''osmChange'')
                      \<and> map_option header_resolutions (Parser_call E ?s0 q) = Some [Inr h]
               else m_header_promise s = []
                      \<and> map_option header_resolutions (Parser_call E ?s0 q) = Some [Inl e]"
    proof (cases "m_header_is_done s")
      case True
      with inv obtain h where "m_header_promise s = [h]"
        "m_has_multiple_object_versions h = (?r = Some ''osmChange'')"
        by (auto simp: promise_inv_def)
      with that True show ?thesis by (simp add: Parser_call_def)
    next
      case False
      with inv have "m_header_promise s = []" by (simp add: promise_inv_def)
      with that False show ?thesis by (simp add: Parser_call_def)
    qed
    with c(1) show ?thesis by blast
  qed
  have once: "length (header_resolutions t) = 1" if "Parser_call E ?s0 q = Some t" for t
  proof (cases "run E ?s0 q")
    case (Returned s rest)
    from returned [OF this] that show ?thesis by auto
  next
    case (Thrown e s rest)
    from thrown [OF this] that show ?thesis by (auto split: if_splits)
  next
    case (Blocked s)
    with that show ?thesis by (simp add: Parser_call_def)
  qed
  have ends: "Parser_call E ?s0 q \<noteq> None" if "\<exists>c \<in> set q. chunk_data c = []"
  proof -
    from run_loop_ends [OF that, of E ?s0] have "\<And>s'. run E ?s0 q \<noteq> Blocked s'"
      by (auto simp: run_def split: outcome.splits)
    then show ?thesis by (cases "run E ?s0 q") (auto simp: Parser_call_def)
  qed
  have blocked: "length (m_header_promise s) \<le> 1" if "run E ?s0 q = Blocked s" for s
    using that loop [where s' = s] by (auto simp: run_def split: outcome.splits)
  have finish: "m_header_promise (run_finish E s)
             = (if m_header_is_done s then m_header_promise s
                else m_header_promise s @ [m_header s])" for s
    by (simp add: run_finish_def header_is_done_def send_to_output_queue_def Let_def)
  have noop: "header_is_done s = s" if "m_header_is_done s" for s
    using that by (simp add: header_is_done_def)
  from once ends returned thrown blocked promise_effect [of E] finish noop show ?thesis
    by blast
qed

text \<open>
  The claim as stated fails: in the document \<^verbatim>\<open><osm version="0.6"></osm>\<close> the
  promise is resolved at the end tag of the root element. No entity has been started,
  and the stream has not ended: the main loop goes on to pop the next chunk, in a state
  (the second of the states listed) in which the promise is resolved already. And in a
  document whose root element carries the version 0.5 the run throws at the root
  element: the promise is resolved there, with the error, before any transition out of
  Top and before the end of the stream.
\<close>

theorem header_promise_counterexample:
  "map m_header_promise
     (pull_states example_externals (XMLParser_init all_entities)
        [one_chunk [StartElement ''osm'' [(''version'', ''0.6'')], EndElement ''osm''],
         end_of_stream])
     = [[], [\<lparr>m_options = [(''version'', ''0.6'')], m_boxes = [],
               m_has_multiple_object_versions = False\<rparr>]]
   \<and> map m_input_queue_done
       (pull_states example_externals (XMLParser_init all_entities)
          [one_chunk [StartElement ''osm'' [(''version'', ''0.6'')], EndElement ''osm''],
           end_of_stream])
       = [False, False]
   \<and> map (\<lambda>s. m_written (m_buffer s))
       (pull_states example_externals (XMLParser_init all_entities)
          [one_chunk [StartElement ''osm'' [(''version'', ''0.6'')], EndElement ''osm''],
           end_of_stream])
       = [[], []]
   \<and> Parser_call example_externals (XMLParser_init all_entities)
         [one_chunk [StartElement ''osm'' [(''version'', ''0.5'')]], end_of_stream]
       = Some \<lparr>header_resolutions = [Inl (format_version_error (Some ''0.5''))],
               output_channel = [Inl (format_version_error (Some ''0.5''))]\<rparr>"
  by (simp add: Parser_call_def run_defs canonical_defs example_externals_def all_entities_def)

theorem header_promise_resolved_once_witness:
  "(\<exists>s h. run example_externals (XMLParser_init all_entities)
            [one_chunk [StartElement ''osmChange'' [(''version'', ''0.6'')],
                        StartElement ''delete'' [],
                        StartElement ''node'' [(''id'', ''7'')],
                        EndElement ''node'',
                        EndElement ''delete'',
                        EndElement ''osmChange''],
             end_of_stream] = Returned s []
      \<and> m_header_promise s = [h] \<and> m_has_multiple_object_versions h
      \<and> map_option header_resolutions
            (Parser_call example_externals (XMLParser_init all_entities)
               [one_chunk [StartElement ''osmChange'' [(''version'', ''0.6'')],
                           StartElement ''delete'' [],
                           StartElement ''node'' [(''id'', ''7'')],
                           EndElement ''node'',
                           EndElement ''delete'',
                           EndElement ''osmChange''],
                end_of_stream]) = Some [Inr h])
   \<and> (\<exists>s. run example_externals (XMLParser_init all_entities)
            [one_chunk [StartElement ''osmChange'' [(''version'', ''0.6'')],
                        StartElement ''node'' [(''id'', ''7'')],
                        EndElement ''node'',
                        StartElement ''relation'' [(''id'', ''1'')],
                        StartElement ''member'' [(''type'', ''n''), (''ref'', ''0'')]],
             end_of_stream]
          = Thrown (xml_error ''Missing ref on relation member'') s [end_of_stream]
      \<and> (\<exists>h. m_header_promise s = [h] \<and> m_has_multiple_object_versions h
            \<and> map_option header_resolutions
                  (Parser_call example_externals (XMLParser_init all_entities)
                     [one_chunk [StartElement ''osmChange'' [(''version'', ''0.6'')],
                                 StartElement ''node'' [(''id'', ''7'')],
                                 EndElement ''node'',
                                 StartElement ''relation'' [(''id'', ''1'')],
                                 StartElement ''member'' [(''type'', ''n''), (''ref'', ''0'')]],
                      end_of_stream]) = Some [Inr h]))
   \<and> (\<exists>s. run example_externals (XMLParser_init all_entities)
            [one_chunk [StartElement ''osm'' [(''version'', ''0.5'')]], end_of_stream]
          = Thrown (format_version_error (Some ''0.5'')) s [end_of_stream]
      \<and> m_header_promise s = []
      \<and> map_option header_resolutions
            (Parser_call example_externals (XMLParser_init all_entities)
               [one_chunk [StartElement ''osm'' [(''version'', ''0.5'')]], end_of_stream])
          = Some [Inl (format_version_error (Some ''0.5''))])"
proof -
  let ?E = example_externals
  let ?s0 = "XMLParser_init all_entities"
  let ?q = "[one_chunk [StartElement ''osmChange'' [(''version'', ''0.6'')],
                        StartElement ''delete'' [],
                        StartElement ''node'' [(''id'', ''7'')],
                        EndElement ''node'',
                        EndElement ''delete'',
                        EndElement ''osmChange''],
             end_of_stream]"
  let ?q1 = "[one_chunk [StartElement ''osmChange'' [(''version'', ''0.6'')],
                        StartElement ''node'' [(''id'', ''7'')],
                        EndElement ''node'',
                        StartElement ''relation'' [(''id'', ''1'')],
                        StartElement ''member'' [(''type'', ''n''), (''ref'', ''0'')]],
             end_of_stream]"
  let ?q2 = "[one_chunk [StartElement ''osm'' [(''version'', ''0.5'')]], end_of_stream]"
  obtain s where s: "run ?E ?s0 ?q = Returned s []"
    by (simp add: run_defs canonical_defs example_externals_def all_entities_def)
  from header_promise_resolved_once
         [where E = ?E and read_types = all_entities and q = ?q] s
  obtain consumed h where c: "?q = consumed @ []" "m_header_promise s = [h]"
    "m_has_multiple_object_versions h = (first_start (events_of consumed) = Some ''osmChange'')"
    "map_option header_resolutions (Parser_call ?E ?s0 ?q) = Some [Inr h]"
    by blast
  from c(1) have "consumed = ?q" by simp
  then have "first_start (events_of consumed) = Some ''osmChange''"
    by (simp add: events_of_def one_chunk_def)
  with s c have 1: "\<exists>s h. run ?E ?s0 ?q = Returned s []
      \<and> m_header_promise s = [h] \<and> m_has_multiple_object_versions h
      \<and> map_option header_resolutions (Parser_call ?E ?s0 ?q) = Some [Inr h]"
    by blast
  obtain s1 where s1: "run ?E ?s0 ?q1
      = Thrown (xml_error ''Missing ref on relation member'') s1 [end_of_stream]"
    and resolved: "m_header_is_done s1"
    by (simp add: run_defs canonical_defs example_externals_def all_entities_def decimal_def)
  from header_promise_resolved_once
         [where E = ?E and read_types = all_entities and q = ?q1] s1
  obtain consumed1 where c1: "?q1 = consumed1 @ [end_of_stream]"
    "if m_header_is_done s1
     then \<exists>h. m_header_promise s1 = [h]
            \<and> m_has_multiple_object_versions h
                = (first_start (events_of consumed1) = Some ''osmChange'')
            \<and> map_option header_resolutions (Parser_call ?E ?s0 ?q1) = Some [Inr h]
     else m_header_promise s1 = []
            \<and> map_option header_resolutions (Parser_call ?E ?s0 ?q1)
                = Some [Inl (xml_error ''Missing ref on relation member'')]"
    by blast
  from c1(1) have "first_start (events_of consumed1) = Some ''osmChange''"
    by (auto simp: events_of_def one_chunk_def)
  with c1(2) resolved s1 have 2: "\<exists>s. run ?E ?s0 ?q1
          = Thrown (xml_error ''Missing ref on relation member'') s [end_of_stream]
      \<and> (\<exists>h. m_header_promise s = [h] \<and> m_has_multiple_object_versions h
            \<and> map_option header_resolutions (Parser_call ?E ?s0 ?q1) = Some [Inr h])"
    by auto
  obtain s2 where s2: "run ?E ?s0 ?q2
      = Thrown (format_version_error (Some ''0.5'')) s2 [end_of_stream]"
    and pending: "\<not> m_header_is_done s2"
    by (simp add: run_defs canonical_defs example_externals_def all_entities_def)
  from header_promise_resolved_once
         [where E = ?E and read_types = all_entities and q = ?q2] s2 pending
  have "m_header_promise s2 = []
      \<and> map_option header_resolutions (Parser_call ?E ?s0 ?q2)
          = Some [Inl (format_version_error (Some ''0.5''))]"
    by auto
  with s2 have 3: "\<exists>s. run ?E ?s0 ?q2
          = Thrown (format_version_error (Some ''0.5'')) s [end_of_stream]
      \<and> m_header_promise s = []
      \<and> map_option header_resolutions (Parser_call ?E ?s0 ?q2)
          = Some [Inl (format_version_error (Some ''0.5''))]"
    by blast
  from 1 2 3 show ?thesis by blast
qed

section \<open>Relation members\<close>





lemma written_entities_seal [simp]: "written_entities (seal p it z) = written_entities z"
  by (simp add: written_entities_def)

lemma written_entities_reset_tl [simp]:
  "written_entities (reset_tl_builder z) = written_entities z"
  by (cases "m_tl_builder z") (simp_all add: reset_tl_builder_def written_entities_def)

lemma written_entities_reset_rml [simp]:
  "written_entities (reset_rml_builder z) = written_entities z"
  by (cases "m_rml_builder z") (simp_all add: reset_rml_builder_def written_entities_def)

lemma reset_tl_builder_fields [simp]:
  "m_context (reset_tl_builder z) = m_context z"
  "m_last_context (reset_tl_builder z) = m_last_context z"
  "m_rml_builder (reset_tl_builder z) = m_rml_builder z"
  "(m_relation_builder (reset_tl_builder z) = None) = (m_relation_builder z = None)"
  "m_tl_builder (reset_tl_builder z) = None"
  by (cases "m_tl_builder z"; simp add: reset_tl_builder_def)+

lemma reset_rml_builder_fields [simp]:
  "m_context (reset_rml_builder z) = m_context z"
  "m_last_context (reset_rml_builder z) = m_last_context z"
  "m_rml_builder (reset_rml_builder z) = None"
  "(m_relation_builder (reset_rml_builder z) = None) = (m_relation_builder z = None)"
  "m_tl_builder (reset_rml_builder z) = m_tl_builder z"
  by (cases "m_rml_builder z"; simp add: reset_rml_builder_def)+

lemma relation_object_seal [simp]:
  "map_option entity_object (m_relation_builder (seal p it z))
     = map_option entity_object (m_relation_builder z)"
  by (cases p; cases "m_relation_builder z") (simp_all add: seal_def add_item_def)

lemma relation_object_reset_tl [simp]:
  "map_option entity_object (m_relation_builder (reset_tl_builder z))
     = map_option entity_object (m_relation_builder z)"
  by (cases "m_tl_builder z") (simp_all add: reset_tl_builder_def)

lemma relation_object_reset_rml [simp]:
  "map_option entity_object (m_relation_builder (reset_rml_builder z))
     = map_option entity_object (m_relation_builder z)"
  by (cases "m_rml_builder z") (simp_all add: reset_rml_builder_def)












end
